theory Spec2Isabelle
  imports Main "HOL-Library.AList" "HOL-Library.Word"
begin

unbundle bit_operations_syntax

section \<open>Data model\<close>

text \<open>
  A shallow embedding of the sequential behaviour of the cache: one operation at a time
  on a shard, each operation being the critical sections of the Go method run to
  completion. Byte slices are lists of bytes. An instant of \<open>time.Time\<close> and a
  \<open>time.Duration\<close> are integers (nanoseconds); the zero \<open>time.Time\<close>, which the
  code uses for "no expiration", is \<open>None\<close>. Every reading of \<open>time.Now()\<close> inside
  one operation is the clock argument \<open>now\<close> of that operation. Go's \<open>int\<close> values
  here are byte counts, entry counts and access counts of objects held in memory, which
  stay far from the 64-bit range, so they are modelled in \<open>int\<close>.
\<close>

type_synonym bytes = "8 word list"

text \<open>
  Modelled from the spec: the declaration of \<open>ErrKeyNotFound\<close> is not among the
  sources (only its uses in \<open>shard.go\<close> are); the spec names it KeyNotFound, "lookup
  target absent or expired". \<open>ErrCompressor\<close> stands for any error value returned by
  the injected compressor. The last three are Go's run-time panics: the nil dereference
  that \<open>CacheShard.Get\<close> would run into on a compressed item of a shard without
  compressor, and the two panics \<open>Cache.getShard\<close> would run into on a cache
  without shards.
\<close>

datatype error =
    ErrKeyNotFound
  | ErrCompressor string
  | PanicNilCompressor
  | PanicDivideByZero
  | PanicIndexOutOfRange

record Compressor =
  Compress :: "bytes \<Rightarrow> error + bytes"
  Decompress :: "bytes \<Rightarrow> error + bytes"

definition NoCompressor :: Compressor where
  "NoCompressor = \<lparr>Compress = (\<lambda>data. Inr data), Decompress = (\<lambda>data. Inr data)\<rparr>"

record CacheItem =
  Key :: string
  Value :: bytes
  Size :: int
  ExpireAt :: "int option"
  CreatedAt :: int
  AccessAt :: int
  AccessCount :: int
  Compressed :: bool

section \<open>Eviction lists\<close>

text \<open>
  The three eviction lists hold nodes with a pointer to the cache item. No method ever
  reads that pointer (nor \<open>FIFONode.CreatedAt\<close>), so a node of the LRU and FIFO lists is
  its key. \<open>container/list\<close> is a list of keys (front first), \<open>nodeMap\<close> the set of
  keys that have an element; the element of a key is the position of the key in the list.
\<close>

subsection \<open>LRU\<close>

record LRUList =
  lru_list :: "string list"
  lru_nodeMap :: "string set"

definition NewLRUList :: LRUList where
  "NewLRUList = \<lparr>lru_list = [], lru_nodeMap = {}\<rparr>"

definition LRUList_Add :: "string \<Rightarrow> CacheItem \<Rightarrow> LRUList \<Rightarrow> LRUList" where
  "LRUList_Add key item lru =
     (if key \<in> lru_nodeMap lru
      then lru\<lparr>lru_list := key # remove1 key (lru_list lru)\<rparr>
      else lru\<lparr>lru_list := key # lru_list lru, lru_nodeMap := insert key (lru_nodeMap lru)\<rparr>)"

definition LRUList_Remove :: "string \<Rightarrow> LRUList \<Rightarrow> LRUList" where
  "LRUList_Remove key lru =
     (if key \<in> lru_nodeMap lru
      then lru\<lparr>lru_list := remove1 key (lru_list lru), lru_nodeMap := lru_nodeMap lru - {key}\<rparr>
      else lru)"

definition LRUList_Update :: "string \<Rightarrow> CacheItem \<Rightarrow> LRUList \<Rightarrow> LRUList" where
  "LRUList_Update key item lru =
     (if key \<in> lru_nodeMap lru
      then lru\<lparr>lru_list := key # remove1 key (lru_list lru)\<rparr>
      else lru)"

text \<open>\<open>RemoveLeast\<close> returns the key and the list after the removal; \<open>''''\<close> is the
  source's answer on an empty list.\<close>

definition LRUList_RemoveLeast :: "LRUList \<Rightarrow> string \<times> LRUList" where
  "LRUList_RemoveLeast lru =
     (if lru_list lru = [] then ('''', lru)
      else (last (lru_list lru),
            lru\<lparr>lru_list := butlast (lru_list lru),
                lru_nodeMap := lru_nodeMap lru - {last (lru_list lru)}\<rparr>))"

definition LRUList_Clear :: "LRUList \<Rightarrow> LRUList" where
  "LRUList_Clear lru = \<lparr>lru_list = [], lru_nodeMap = {}\<rparr>"

subsection \<open>FIFO\<close>

record FIFOList =
  fifo_list :: "string list"
  fifo_nodeMap :: "string set"

definition NewFIFOList :: FIFOList where
  "NewFIFOList = \<lparr>fifo_list = [], fifo_nodeMap = {}\<rparr>"

definition FIFOList_Add :: "string \<Rightarrow> CacheItem \<Rightarrow> FIFOList \<Rightarrow> FIFOList" where
  "FIFOList_Add key item fifo =
     (if key \<in> fifo_nodeMap fifo
      then fifo
      else fifo\<lparr>fifo_list := fifo_list fifo @ [key],
                fifo_nodeMap := insert key (fifo_nodeMap fifo)\<rparr>)"

definition FIFOList_Remove :: "string \<Rightarrow> FIFOList \<Rightarrow> FIFOList" where
  "FIFOList_Remove key fifo =
     (if key \<in> fifo_nodeMap fifo
      then fifo\<lparr>fifo_list := remove1 key (fifo_list fifo),
                fifo_nodeMap := fifo_nodeMap fifo - {key}\<rparr>
      else fifo)"

definition FIFOList_Update :: "string \<Rightarrow> CacheItem \<Rightarrow> FIFOList \<Rightarrow> FIFOList" where
  "FIFOList_Update key item fifo = fifo"

definition FIFOList_RemoveLeast :: "FIFOList \<Rightarrow> string \<times> FIFOList" where
  "FIFOList_RemoveLeast fifo =
     (case fifo_list fifo of
        [] \<Rightarrow> ('''', fifo)
      | key # rest \<Rightarrow>
          (key, fifo\<lparr>fifo_list := rest, fifo_nodeMap := fifo_nodeMap fifo - {key}\<rparr>))"

definition FIFOList_Clear :: "FIFOList \<Rightarrow> FIFOList" where
  "FIFOList_Clear fifo = \<lparr>fifo_list = [], fifo_nodeMap = {}\<rparr>"

subsection \<open>LFU\<close>

text \<open>
  \<open>nodes\<close> is the Go map from a key to its node, as an association list; a node is
  its frequency and its time of last use (its key is the key of the map, its item
  pointer is never read). \<open>frequencies\<close> is the Go map from a frequency to its bucket;
  a bucket lists node pointers, and since the code keeps one node per key, the pointer
  is represented by the key. Reading a field through a bucket element is a lookup of
  the key in \<open>nodes\<close>.
\<close>

record LFUNode =
  Frequency :: int
  LastUsed :: int

record LFUList =
  nodes :: "(string \<times> LFUNode) list"
  frequencies :: "(int \<times> string list) list"
  minFreq :: int

definition NewLFUList :: LFUList where
  "NewLFUList = \<lparr>nodes = [], frequencies = [], minFreq = 1\<rparr>"

definition addToFrequency :: "string \<Rightarrow> int \<Rightarrow> LFUList \<Rightarrow> LFUList" where
  "addToFrequency node frequency lfu =
     (case map_of (frequencies lfu) frequency of
        None \<Rightarrow> lfu\<lparr>frequencies := AList.update frequency [node] (frequencies lfu)\<rparr>
      | Some freqList \<Rightarrow>
          lfu\<lparr>frequencies := AList.update frequency (freqList @ [node]) (frequencies lfu)\<rparr>)"

definition removeFromFrequency :: "string \<Rightarrow> int \<Rightarrow> LFUList \<Rightarrow> LFUList" where
  "removeFromFrequency node frequency lfu =
     (case map_of (frequencies lfu) frequency of
        None \<Rightarrow> lfu
      | Some freqList \<Rightarrow>
          lfu\<lparr>frequencies := AList.update frequency (remove1 node freqList) (frequencies lfu)\<rparr>)"

definition isEmpty :: "LFUList \<Rightarrow> int \<Rightarrow> bool" where
  "isEmpty lfu frequency =
     (case map_of (frequencies lfu) frequency of
        None \<Rightarrow> True
      | Some freqList \<Rightarrow> length freqList = 0)"

text \<open>
  The loop of \<open>updateMinFreq\<close> ranges over the Go map \<open>frequencies\<close>, whose order of
  enumeration is unspecified. The model enumerates the association list front to back;
  lemma \<open>scanMinFreq_least\<close> below shows that the result does not depend on the order
  when no bucket of frequency 1 is occupied, which is the case whenever a shard runs the
  loop.
\<close>

definition scanMinFreq :: "(int \<times> string list) list \<Rightarrow> int \<Rightarrow> int" where
  "scanMinFreq fs m0 =
     fold (\<lambda>(freq, freqList) m.
             if length freqList > 0 then (if freq < m \<or> m = 1 then freq else m) else m)
          fs m0"

definition updateMinFreq :: "LFUList \<Rightarrow> LFUList" where
  "updateMinFreq lfu =
     (if isEmpty lfu (minFreq lfu)
      then lfu\<lparr>minFreq := scanMinFreq (frequencies lfu) 1\<rparr>
      else lfu)"

definition LFUList_Add :: "int \<Rightarrow> string \<Rightarrow> CacheItem \<Rightarrow> LFUList \<Rightarrow> LFUList" where
  "LFUList_Add now key item lfu =
     (case map_of (nodes lfu) key of
        Some node \<Rightarrow>
          (let oldFreq = Frequency node; newFreq = AccessCount item in
           if oldFreq \<noteq> newFreq
           then updateMinFreq
                  (addToFrequency key newFreq
                     ((removeFromFrequency key oldFreq lfu)
                        \<lparr>nodes := AList.update key \<lparr>Frequency = newFreq, LastUsed = now\<rparr>
                                    (nodes lfu)\<rparr>))
           else lfu\<lparr>nodes := AList.update key (node\<lparr>LastUsed := now\<rparr>) (nodes lfu)\<rparr>)
      | None \<Rightarrow>
          (let frequency = (if AccessCount item = 0 then 1 else AccessCount item);
               lfu1 = addToFrequency key frequency
                        (lfu\<lparr>nodes := AList.update key
                                         \<lparr>Frequency = frequency, LastUsed = now\<rparr> (nodes lfu)\<rparr>)
           in if frequency < minFreq lfu1 \<or> isEmpty lfu1 (minFreq lfu1)
              then lfu1\<lparr>minFreq := frequency\<rparr>
              else lfu1))"

definition LFUList_Remove :: "string \<Rightarrow> LFUList \<Rightarrow> LFUList" where
  "LFUList_Remove key lfu =
     (case map_of (nodes lfu) key of
        Some node \<Rightarrow>
          updateMinFreq
            ((removeFromFrequency key (Frequency node) lfu)
               \<lparr>nodes := AList.delete key (nodes lfu)\<rparr>)
      | None \<Rightarrow> lfu)"

definition LFUList_Update :: "int \<Rightarrow> string \<Rightarrow> CacheItem \<Rightarrow> LFUList \<Rightarrow> LFUList" where
  "LFUList_Update now key item lfu =
     (case map_of (nodes lfu) key of
        Some node \<Rightarrow>
          (let oldFreq = Frequency node; newFreq = AccessCount item in
           if oldFreq \<noteq> newFreq
           then updateMinFreq
                  (addToFrequency key newFreq
                     ((removeFromFrequency key oldFreq lfu)
                        \<lparr>nodes := AList.update key \<lparr>Frequency = newFreq, LastUsed = now\<rparr>
                                    (nodes lfu)\<rparr>))
           else lfu\<lparr>nodes := AList.update key (node\<lparr>LastUsed := now\<rparr>) (nodes lfu)\<rparr>)
      | None \<Rightarrow> lfu)"

text \<open>
  The scan of \<open>RemoveLeast\<close> keeps the first element and replaces it only by an
  element used strictly earlier. \<open>lastUsedOf\<close> reads \<open>node.LastUsed\<close> through the
  bucket element; the default 0 is never read when every bucket element has a node in
  \<open>nodes\<close>.
\<close>

definition lastUsedOf :: "LFUList \<Rightarrow> string \<Rightarrow> int" where
  "lastUsedOf lfu key = (case map_of (nodes lfu) key of Some node \<Rightarrow> LastUsed node | None \<Rightarrow> 0)"

definition oldestElement :: "LFUList \<Rightarrow> string list \<Rightarrow> string option" where
  "oldestElement lfu freqList =
     fold (\<lambda>key oldest.
             case oldest of
               None \<Rightarrow> Some key
             | Some old \<Rightarrow> if lastUsedOf lfu key < lastUsedOf lfu old then Some key else oldest)
          freqList None"

definition LFUList_RemoveLeast :: "LFUList \<Rightarrow> string \<times> LFUList" where
  "LFUList_RemoveLeast lfu =
     (if length (nodes lfu) = 0 then ('''', lfu)
      else case map_of (frequencies lfu) (minFreq lfu) of
        None \<Rightarrow> ('''', lfu)
      | Some freqList \<Rightarrow>
          if length freqList = 0 then ('''', lfu)
          else case oldestElement lfu freqList of
            None \<Rightarrow> ('''', lfu)
          | Some key \<Rightarrow>
              (key, updateMinFreq
                      (lfu\<lparr>frequencies := AList.update (minFreq lfu) (remove1 key freqList)
                                              (frequencies lfu),
                           nodes := AList.delete key (nodes lfu)\<rparr>)))"

definition LFUList_Clear :: "LFUList \<Rightarrow> LFUList" where
  "LFUList_Clear lfu = \<lparr>nodes = [], frequencies = [], minFreq = 1\<rparr>"

subsection \<open>The interface\<close>

datatype EvictionList = LRU LRUList | LFU LFUList | FIFO FIFOList

definition EvictionList_Add :: "int \<Rightarrow> string \<Rightarrow> CacheItem \<Rightarrow> EvictionList \<Rightarrow> EvictionList" where
  "EvictionList_Add now key item el =
     (case el of
        LRU lru \<Rightarrow> LRU (LRUList_Add key item lru)
      | LFU lfu \<Rightarrow> LFU (LFUList_Add now key item lfu)
      | FIFO fifo \<Rightarrow> FIFO (FIFOList_Add key item fifo))"

definition EvictionList_Remove :: "string \<Rightarrow> EvictionList \<Rightarrow> EvictionList" where
  "EvictionList_Remove key el =
     (case el of
        LRU lru \<Rightarrow> LRU (LRUList_Remove key lru)
      | LFU lfu \<Rightarrow> LFU (LFUList_Remove key lfu)
      | FIFO fifo \<Rightarrow> FIFO (FIFOList_Remove key fifo))"

definition EvictionList_Update :: "int \<Rightarrow> string \<Rightarrow> CacheItem \<Rightarrow> EvictionList \<Rightarrow> EvictionList" where
  "EvictionList_Update now key item el =
     (case el of
        LRU lru \<Rightarrow> LRU (LRUList_Update key item lru)
      | LFU lfu \<Rightarrow> LFU (LFUList_Update now key item lfu)
      | FIFO fifo \<Rightarrow> FIFO (FIFOList_Update key item fifo))"

definition EvictionList_RemoveLeast :: "EvictionList \<Rightarrow> string \<times> EvictionList" where
  "EvictionList_RemoveLeast el =
     (case el of
        LRU lru \<Rightarrow> (fst (LRUList_RemoveLeast lru), LRU (snd (LRUList_RemoveLeast lru)))
      | LFU lfu \<Rightarrow> (fst (LFUList_RemoveLeast lfu), LFU (snd (LFUList_RemoveLeast lfu)))
      | FIFO fifo \<Rightarrow> (fst (FIFOList_RemoveLeast fifo), FIFO (snd (FIFOList_RemoveLeast fifo))))"

definition EvictionList_Clear :: "EvictionList \<Rightarrow> EvictionList" where
  "EvictionList_Clear el =
     (case el of
        LRU lru \<Rightarrow> LRU (LRUList_Clear lru)
      | LFU lfu \<Rightarrow> LFU (LFUList_Clear lfu)
      | FIFO fifo \<Rightarrow> FIFO (FIFOList_Clear fifo))"

section \<open>The shard\<close>

record ShardStats =
  Hits :: int
  Misses :: int
  Evictions :: int

text \<open>\<open>data\<close> is the Go map from a key to its item, as an association list; the map
  is never enumerated. The two mutexes are not modelled.\<close>

record CacheShard =
  maxSize :: int
  evictionPolicy :: string
  data :: "(string \<times> CacheItem) list"
  evictionList :: EvictionList
  stats :: ShardStats
  currentSize :: int
  currentCount :: int
  compressor :: "Compressor option"
  compressSize :: int

definition EvictionLRU :: string where "EvictionLRU = ''LRU''"
definition EvictionLFU :: string where "EvictionLFU = ''LFU''"
definition EvictionFIFO :: string where "EvictionFIFO = ''FIFO''"

definition NewCacheShard :: "int \<Rightarrow> string \<Rightarrow> Compressor option \<Rightarrow> int \<Rightarrow> CacheShard" where
  "NewCacheShard maxSize' evictionPolicy' compressor' compressSize' =
     \<lparr>maxSize = maxSize',
      evictionPolicy =
        (if evictionPolicy' = EvictionLRU \<or> evictionPolicy' = EvictionLFU
            \<or> evictionPolicy' = EvictionFIFO
         then evictionPolicy' else EvictionLRU),
      data = [],
      evictionList =
        (if evictionPolicy' = EvictionLRU then LRU NewLRUList
         else if evictionPolicy' = EvictionLFU then LFU NewLFUList
         else if evictionPolicy' = EvictionFIFO then FIFO NewFIFOList
         else LRU NewLRUList),
      stats = \<lparr>Hits = 0, Misses = 0, Evictions = 0\<rparr>,
      currentSize = 0,
      currentCount = 0,
      compressor = compressor',
      compressSize = compressSize'\<rparr>"

text \<open>\<open>evictOne\<close> returns its boolean and the shard after it.\<close>

definition evictOne :: "CacheShard \<Rightarrow> bool \<times> CacheShard" where
  "evictOne s =
     (let keyToEvict = fst (EvictionList_RemoveLeast (evictionList s));
          s1 = s\<lparr>evictionList := snd (EvictionList_RemoveLeast (evictionList s))\<rparr>
      in if keyToEvict = '''' then (False, s1)
         else case map_of (data s1) keyToEvict of
           Some item \<Rightarrow>
             (True, s1\<lparr>data := AList.delete keyToEvict (data s1),
                       currentSize := currentSize s1 - Size item,
                       currentCount := currentCount s1 - 1,
                       stats := (stats s1)\<lparr>Evictions := Evictions (stats s1) + 1\<rparr>\<rparr>)
         | None \<Rightarrow> (False, s1))"

function evictIfNeeded :: "int \<Rightarrow> CacheShard \<Rightarrow> CacheShard" where
  "evictIfNeeded newItemSize s =
     (if maxSize s > 0 \<and> currentSize s + newItemSize > maxSize s
      then (if fst (evictOne s) then evictIfNeeded newItemSize (snd (evictOne s))
            else snd (evictOne s))
      else s)"
  by pat_completeness auto
termination
proof (relation "measure (\<lambda>(n, s). length (data s))")
  show "wf (measure (\<lambda>(n, s). length (data s)))" by simp
next
  fix newItemSize :: int and s :: CacheShard
  assume "fst (evictOne s)"
  have shorter: "length (AList.delete k al) < length al"
    if "map_of al k = Some v" for k :: string and v :: CacheItem and al
    using that
    by (induction al) (auto simp: less_Suc_eq_le AList.length_delete_le split: if_splits)
  from \<open>fst (evictOne s)\<close> have "length (data (snd (evictOne s))) < length (data s)"
    by (auto simp: evictOne_def Let_def shorter split: if_splits option.splits)
  then show "((newItemSize, snd (evictOne s)), (newItemSize, s))
               \<in> measure (\<lambda>(n, s). length (data s))"
    by simp
qed

declare evictIfNeeded.simps [simp del]

text \<open>
  \<open>Set\<close> in three parts: the compression decision (\<open>Some\<close> of the compressed
  bytes when they are used), the critical section up to the call of \<open>evictIfNeeded\<close>,
  and the whole method, which returns its error (\<open>None\<close> is Go's \<open>nil\<close>) and the
  shard after it.
\<close>

definition compressedData :: "CacheShard \<Rightarrow> bytes \<Rightarrow> bytes option" where
  "compressedData s val =
     (if int (length val) > compressSize s
      then (case compressor s of
              Some c \<Rightarrow>
                (case Compress c val of
                   Inr cd \<Rightarrow> if int (length cd) < int (length val) then Some cd else None
                 | Inl err \<Rightarrow> None)
            | None \<Rightarrow> None)
      else None)"

definition storeItem :: "int \<Rightarrow> string \<Rightarrow> bytes \<Rightarrow> int \<Rightarrow> CacheShard \<Rightarrow> CacheShard" where
  "storeItem now key val ttl s =
     (let finalValue = (case compressedData s val of Some cd \<Rightarrow> cd | None \<Rightarrow> val);
          size' = int (length finalValue);
          compressed = (compressedData s val \<noteq> None);
          expireAt = (if ttl > 0 then Some (now + ttl) else None)
      in case map_of (data s) key of
           Some oldItem \<Rightarrow>
             (let item = oldItem\<lparr>Value := finalValue, Size := size', ExpireAt := expireAt,
                                 AccessAt := now, Compressed := compressed\<rparr>
              in s\<lparr>currentSize := currentSize s - Size oldItem + size',
                   data := AList.update key item (data s),
                   evictionList :=
                     EvictionList_Add now key item
                       (EvictionList_Remove key (evictionList s))\<rparr>)
         | None \<Rightarrow>
             (let item = \<lparr>Key = key, Value = finalValue, Size = size', ExpireAt = expireAt,
                          CreatedAt = now, AccessAt = now, AccessCount = 0,
                          Compressed = compressed\<rparr>
              in s\<lparr>data := AList.update key item (data s),
                   currentSize := currentSize s + size',
                   currentCount := currentCount s + 1,
                   evictionList := EvictionList_Add now key item (evictionList s)\<rparr>))"

definition CacheShard_Set ::
  "int \<Rightarrow> string \<Rightarrow> bytes \<Rightarrow> int \<Rightarrow> CacheShard \<Rightarrow> error option \<times> CacheShard" where
  "CacheShard_Set now key val ttl s = (None, evictIfNeeded 0 (storeItem now key val ttl s))"

text \<open>
  \<open>Get\<close> returns its result, the key of the \<open>Delete\<close> it has started in a goroutine
  (if any), and the shard after it. The started \<open>Delete\<close> runs later, as an operation
  of its own.
\<close>

definition CacheShard_Get ::
  "int \<Rightarrow> string \<Rightarrow> CacheShard \<Rightarrow> (error + bytes) \<times> string option \<times> CacheShard" where
  "CacheShard_Get now key s =
     (case map_of (data s) key of
        None \<Rightarrow>
          (Inl ErrKeyNotFound, None, s\<lparr>stats := (stats s)\<lparr>Misses := Misses (stats s) + 1\<rparr>\<rparr>)
      | Some item \<Rightarrow>
          if ExpireAt item \<noteq> None \<and> now > the (ExpireAt item)
          then (Inl ErrKeyNotFound, Some key,
                s\<lparr>stats := (stats s)\<lparr>Misses := Misses (stats s) + 1\<rparr>\<rparr>)
          else
            (let item' = item\<lparr>AccessAt := now, AccessCount := AccessCount item + 1\<rparr>;
                 s1 = s\<lparr>data := AList.update key item' (data s),
                        evictionList := EvictionList_Update now key item' (evictionList s),
                        stats := (stats s)\<lparr>Hits := Hits (stats s) + 1\<rparr>\<rparr>
             in if Compressed item'
                then (case compressor s of
                        Some c \<Rightarrow> (Decompress c (Value item'), None, s1)
                      | None \<Rightarrow> (Inl PanicNilCompressor, None, s1))
                else (Inr (Value item'), None, s1)))"

definition CacheShard_Delete :: "string \<Rightarrow> CacheShard \<Rightarrow> CacheShard" where
  "CacheShard_Delete key s =
     (case map_of (data s) key of
        None \<Rightarrow> s
      | Some item \<Rightarrow>
          s\<lparr>data := AList.delete key (data s),
            currentSize := currentSize s - Size item,
            currentCount := currentCount s - 1,
            evictionList := EvictionList_Remove key (evictionList s)\<rparr>)"

definition CacheShard_Clear :: "CacheShard \<Rightarrow> CacheShard" where
  "CacheShard_Clear s =
     s\<lparr>data := [],
       currentSize := 0,
       currentCount := 0,
       evictionList := EvictionList_Clear (evictionList s),
       stats := \<lparr>Hits = 0, Misses = 0, Evictions = 0\<rparr>\<rparr>"

subsection \<open>Sequences of operations\<close>

text \<open>A finite sequence of calls on one shard, each with its clock reading. A
  \<open>Delete\<close> started by \<open>Get\<close> is a \<open>ShardDelete\<close> at the place where it runs.\<close>

datatype shard_op =
    ShardSet int string bytes int
  | ShardGet int string
  | ShardDelete string
  | ShardClear

fun op_key :: "shard_op \<Rightarrow> string option" where
  "op_key (ShardSet now key val ttl) = Some key"
| "op_key (ShardGet now key) = Some key"
| "op_key (ShardDelete key) = Some key"
| "op_key ShardClear = None"

fun apply_op :: "shard_op \<Rightarrow> CacheShard \<Rightarrow> CacheShard" where
  "apply_op (ShardSet now key val ttl) s = snd (CacheShard_Set now key val ttl s)"
| "apply_op (ShardGet now key) s = snd (snd (CacheShard_Get now key s))"
| "apply_op (ShardDelete key) s = CacheShard_Delete key s"
| "apply_op ShardClear s = CacheShard_Clear s"

definition run :: "shard_op list \<Rightarrow> CacheShard \<Rightarrow> CacheShard" where
  "run ops s = fold apply_op ops s"

section \<open>The cache\<close>

subsection \<open>Sizing helpers\<close>

text \<open>
  \<open>fnv1a\<close> works on \<open>uint32\<close>, with its wrap-around. The loop of
  \<open>roundToPowerOfTwo\<close> does not return for every pair of integers (it runs forever
  from a power that is not positive), so it is a partial function and \<open>None\<close> means
  that it does not return. \<open>numCPU\<close> is the result of \<open>runtime.NumCPU()\<close>, the
  number of logical CPUs of the machine, so that \<open>numCPU * 2\<close> is far from the
  64-bit range.
\<close>

definition fnv1a :: "string \<Rightarrow> 32 word" where
  "fnv1a key = fold (\<lambda>c hash. (hash XOR of_char c) * 16777619) key 2166136261"

partial_function (option) roundLoop :: "int \<Rightarrow> int \<Rightarrow> int option" where
  "roundLoop pow n = (if pow < n then roundLoop (push_bit 1 pow) n else Some pow)"

declare roundLoop.simps [code]

definition roundToPowerOfTwo :: "int \<Rightarrow> int option" where
  "roundToPowerOfTwo n =
     (if n \<le> 1 then Some 1
      else if n AND (n - 1) = 0 then Some n
      else roundLoop 1 n)"

definition getOptimalShardCount :: "int \<Rightarrow> int option" where
  "getOptimalShardCount numCPU =
     (let shardCount = numCPU * 2;
          shardCount = (if shardCount < 4 then 4 else shardCount);
          shardCount = (if shardCount > 256 then 256 else shardCount)
      in roundToPowerOfTwo shardCount)"

subsection \<open>Construction and dispatch\<close>

record cacheOptions =
  opt_maxSize :: int
  opt_evictionPolicy :: string
  opt_compressor :: "Compressor option"
  opt_compressSize :: int

definition WithMaxSize :: "int \<Rightarrow> cacheOptions \<Rightarrow> cacheOptions" where
  "WithMaxSize size' opts = opts\<lparr>opt_maxSize := size'\<rparr>"

definition WithCompressSize :: "int \<Rightarrow> cacheOptions \<Rightarrow> cacheOptions" where
  "WithCompressSize size' opts = opts\<lparr>opt_compressSize := size'\<rparr>"

definition WithEvictionPolicy :: "string \<Rightarrow> cacheOptions \<Rightarrow> cacheOptions" where
  "WithEvictionPolicy policy opts = opts\<lparr>opt_evictionPolicy := policy\<rparr>"

definition WithCompressor :: "Compressor option \<Rightarrow> cacheOptions \<Rightarrow> cacheOptions" where
  "WithCompressor compressor' opts = opts\<lparr>opt_compressor := compressor'\<rparr>"

record Cache =
  cache_maxSize :: int
  cache_evictionPolicy :: string
  shards :: "CacheShard list"
  shardCount :: int

text \<open>Go's \<open>/\<close> on integers truncates toward zero.\<close>

definition go_quot :: "int \<Rightarrow> int \<Rightarrow> int" where
  "go_quot a b = sgn a * sgn b * (\<bar>a\<bar> div \<bar>b\<bar>)"

text \<open>\<open>NewCache\<close> takes the options and the value of \<open>runtime.NumCPU()\<close>;
  \<open>None\<close> means that it does not return.\<close>

definition NewCache :: "(cacheOptions \<Rightarrow> cacheOptions) list \<Rightarrow> int \<Rightarrow> Cache option" where
  "NewCache opts numCPU =
     (let options0 = \<lparr>opt_maxSize = 1024 * 1024 * 100, opt_evictionPolicy = EvictionLRU,
                      opt_compressor = Some NoCompressor, opt_compressSize = 1024 * 1024\<rparr>;
          options1 = fold (\<lambda>opt options. opt options) opts options0;
          options =
            (if opt_evictionPolicy options1 = EvictionLRU
                \<or> opt_evictionPolicy options1 = EvictionLFU
                \<or> opt_evictionPolicy options1 = EvictionFIFO
             then options1 else options1\<lparr>opt_evictionPolicy := EvictionLRU\<rparr>)
      in case getOptimalShardCount numCPU of
           None \<Rightarrow> None
         | Some shardCount' \<Rightarrow>
             (let shardMaxSize0 = go_quot (opt_maxSize options) shardCount';
                  shardMaxSize =
                    (if shardMaxSize0 = 0 \<and> opt_maxSize options > 0 then 1 else shardMaxSize0)
              in Some \<lparr>cache_maxSize = opt_maxSize options,
                       cache_evictionPolicy = opt_evictionPolicy options,
                       shards =
                         map (\<lambda>i. NewCacheShard shardMaxSize (opt_evictionPolicy options)
                                    (opt_compressor options) (opt_compressSize options))
                             [0..<nat shardCount'],
                       shardCount = shardCount'\<rparr>))"

text \<open>\<open>getShard\<close> returns the index of the shard. \<open>int(hash)\<close> is not negative, so
  Go's \<open>%\<close> is the remainder by the absolute value of \<open>shardCount\<close>.\<close>

definition getShard :: "Cache \<Rightarrow> string \<Rightarrow> error + nat" where
  "getShard c key =
     (if shardCount c = 0 then Inl PanicDivideByZero
      else let shardIndex = nat (uint (fnv1a key) mod \<bar>shardCount c\<bar>)
           in if shardIndex < length (shards c) then Inr shardIndex
              else Inl PanicIndexOutOfRange)"

definition Cache_Set ::
  "int \<Rightarrow> string \<Rightarrow> bytes \<Rightarrow> int \<Rightarrow> Cache \<Rightarrow> error option \<times> Cache" where
  "Cache_Set now key val ttl c =
     (case getShard c key of
        Inl panic \<Rightarrow> (Some panic, c)
      | Inr i \<Rightarrow>
          (fst (CacheShard_Set now key val ttl (shards c ! i)),
           c\<lparr>shards := (shards c)[i := snd (CacheShard_Set now key val ttl (shards c ! i))]\<rparr>))"

definition Cache_Get ::
  "int \<Rightarrow> string \<Rightarrow> Cache \<Rightarrow> (error + bytes) \<times> string option \<times> Cache" where
  "Cache_Get now key c =
     (case getShard c key of
        Inl panic \<Rightarrow> (Inl panic, None, c)
      | Inr i \<Rightarrow>
          (fst (CacheShard_Get now key (shards c ! i)),
           fst (snd (CacheShard_Get now key (shards c ! i))),
           c\<lparr>shards := (shards c)[i := snd (snd (CacheShard_Get now key (shards c ! i)))]\<rparr>))"

text \<open>\<open>Cache.Delete\<close> returns nothing; the error is the panic of \<open>getShard\<close>, if
  any.\<close>

definition Cache_Delete :: "string \<Rightarrow> Cache \<Rightarrow> error option \<times> Cache" where
  "Cache_Delete key c =
     (case getShard c key of
        Inl panic \<Rightarrow> (Some panic, c)
      | Inr i \<Rightarrow> (None, c\<lparr>shards := (shards c)[i := CacheShard_Delete key (shards c ! i)]\<rparr>))"

definition Cache_Clear :: "Cache \<Rightarrow> Cache" where
  "Cache_Clear c = c\<lparr>shards := map CacheShard_Clear (shards c)\<rparr>"

text \<open>The three counters of \<open>Stats\<close> carry the prefix \<open>Stats\<close>, since the fields of
  \<open>ShardStats\<close> have the same names.\<close>

record Stats =
  StatsHits :: int
  StatsMisses :: int
  StatsEvictions :: int
  CurrentCount :: int
  CurrentSize :: int
  MaxSize :: int
  EvictionPolicy :: string
  ShardCount :: int

definition Cache_Stats :: "Cache \<Rightarrow> Stats" where
  "Cache_Stats c =
     \<lparr>StatsHits = sum_list (map (\<lambda>shard. Hits (stats shard)) (shards c)),
      StatsMisses = sum_list (map (\<lambda>shard. Misses (stats shard)) (shards c)),
      StatsEvictions = sum_list (map (\<lambda>shard. Evictions (stats shard)) (shards c)),
      CurrentCount = sum_list (map currentCount (shards c)),
      CurrentSize = sum_list (map currentSize (shards c)),
      MaxSize = cache_maxSize c,
      EvictionPolicy = cache_evictionPolicy c,
      ShardCount = shardCount c\<rparr>"

text \<open>A finite sequence of calls on a cache.\<close>

datatype cache_op =
    CacheSet int string bytes int
  | CacheGet int string
  | CacheDelete string
  | CacheClear

fun cache_op_key :: "cache_op \<Rightarrow> string option" where
  "cache_op_key (CacheSet now key val ttl) = Some key"
| "cache_op_key (CacheGet now key) = Some key"
| "cache_op_key (CacheDelete key) = Some key"
| "cache_op_key CacheClear = None"

fun apply_cache_op :: "cache_op \<Rightarrow> Cache \<Rightarrow> Cache" where
  "apply_cache_op (CacheSet now key val ttl) c = snd (Cache_Set now key val ttl c)"
| "apply_cache_op (CacheGet now key) c = snd (snd (Cache_Get now key c))"
| "apply_cache_op (CacheDelete key) c = snd (Cache_Delete key c)"
| "apply_cache_op CacheClear c = Cache_Clear c"

definition run_cache :: "cache_op list \<Rightarrow> Cache \<Rightarrow> Cache" where
  "run_cache ops c = fold apply_cache_op ops c"

definition totalShardMaxSize :: "Cache \<Rightarrow> int" where
  "totalShardMaxSize c = sum_list (map maxSize (shards c))"

section \<open>Properties\<close>

text \<open>Views of a shard used in the statements below.\<close>

definition fifoQueue :: "EvictionList \<Rightarrow> string list" where
  "fifoQueue el = (case el of FIFO fifo \<Rightarrow> fifo_list fifo | _ \<Rightarrow> [])"


text \<open>Accounting: the keys of \<open>data\<close> are unique, \<open>currentSize\<close> is the sum of the
  sizes of the stored items and \<open>currentCount\<close> their number.\<close>

definition accounting :: "CacheShard \<Rightarrow> bool" where
  "accounting s \<longleftrightarrow>
     distinct (map fst (data s))
     \<and> currentSize s = sum_list (map (Size \<circ> snd) (data s))
     \<and> currentCount s = int (length (data s))"

text \<open>The item that \<open>Set\<close> leaves under a key that held \<open>oldItem\<close>.\<close>

definition overwritten :: "int \<Rightarrow> bytes \<Rightarrow> int \<Rightarrow> CacheShard \<Rightarrow> CacheItem \<Rightarrow> CacheItem" where
  "overwritten now val ttl s oldItem =
     oldItem\<lparr>Value := (case compressedData s val of Some cd \<Rightarrow> cd | None \<Rightarrow> val),
             Size := int (length (case compressedData s val of Some cd \<Rightarrow> cd | None \<Rightarrow> val)),
             ExpireAt := (if ttl > 0 then Some (now + ttl) else None),
             AccessAt := now,
             Compressed := (compressedData s val \<noteq> None)\<rparr>"

text \<open>An operation that is not a \<open>Set\<close> or \<open>Delete\<close> of key \<open>k\<close> nor a
  \<open>Clear\<close>.\<close>

fun preserves_key :: "string \<Rightarrow> shard_op \<Rightarrow> bool" where
  "preserves_key k (ShardSet now key val ttl) = (key \<noteq> k)"
| "preserves_key k (ShardGet now key) = True"
| "preserves_key k (ShardDelete key) = (key \<noteq> k)"
| "preserves_key k ShardClear = False"

text \<open>\<open>evicts k op s\<close>: operation \<open>op\<close> on shard \<open>s\<close> is a \<open>Set\<close> whose eviction loop
  removes key \<open>k\<close>, which was stored after the store step of that \<open>Set\<close>.
  \<open>never_evicts k ops s\<close>: no operation of the sequence evicts \<open>k\<close>.\<close>

definition evicts :: "string \<Rightarrow> shard_op \<Rightarrow> CacheShard \<Rightarrow> bool" where
  "evicts k op s =
     (case op of
        ShardSet now key val ttl \<Rightarrow>
          map_of (data (storeItem now key val ttl s)) k \<noteq> None
          \<and> map_of (data (evictIfNeeded 0 (storeItem now key val ttl s))) k = None
      | _ \<Rightarrow> False)"

fun never_evicts :: "string \<Rightarrow> shard_op list \<Rightarrow> CacheShard \<Rightarrow> bool" where
  "never_evicts k [] s = True"
| "never_evicts k (op # ops) s = (\<not> evicts k op s \<and> never_evicts k ops (apply_op op s))"

text \<open>The shard has compressor \<open>c\<close>, and if it stores key \<open>k\<close>, the item never
  expires and reads back as \<open>v\<close>.\<close>

definition holds_value :: "Compressor option \<Rightarrow> bytes \<Rightarrow> string \<Rightarrow> CacheShard \<Rightarrow> bool" where
  "holds_value c v k s \<longleftrightarrow>
     compressor s = c \<and>
     (\<forall>item. map_of (data s) k = Some item \<longrightarrow>
        ExpireAt item = None \<and>
        (if Compressed item
         then (\<exists>cmp. c = Some cmp \<and> Decompress cmp (Value item) = Inr v)
         else Value item = v))"

text \<open>
  Well-formedness of the eviction lists. For LRU and FIFO: the list has no duplicates and
  \<open>nodeMap\<close> holds exactly its keys. For LFU, with \<open>bucket\<close> the list stored under a
  frequency (empty when there is none) and \<open>freq_of\<close> the frequency of the node of a key:
  frequencies are unique map keys; every node has a frequency of at least 1 and is in the
  bucket of its frequency; every bucket element has a node with that frequency; buckets
  have no duplicates; and when there are nodes, the bucket at \<open>minFreq\<close> is occupied and
  no occupied bucket has a smaller frequency.
\<close>

definition lru_wf :: "LRUList \<Rightarrow> bool" where
  "lru_wf lru \<longleftrightarrow> distinct (lru_list lru) \<and> lru_nodeMap lru = set (lru_list lru)"

definition fifo_wf :: "FIFOList \<Rightarrow> bool" where
  "fifo_wf fifo \<longleftrightarrow> distinct (fifo_list fifo) \<and> fifo_nodeMap fifo = set (fifo_list fifo)"

definition bucket :: "LFUList \<Rightarrow> int \<Rightarrow> string list" where
  "bucket lfu f = (case map_of (frequencies lfu) f of None \<Rightarrow> [] | Some freqList \<Rightarrow> freqList)"

definition freq_of :: "LFUList \<Rightarrow> string \<Rightarrow> int option" where
  "freq_of lfu k = map_option Frequency (map_of (nodes lfu) k)"

definition lfu_wf :: "LFUList \<Rightarrow> bool" where
  "lfu_wf lfu \<longleftrightarrow>
     distinct (map fst (frequencies lfu))
     \<and> (\<forall>k f. freq_of lfu k = Some f \<longrightarrow> 1 \<le> f \<and> k \<in> set (bucket lfu f))
     \<and> (\<forall>f k. k \<in> set (bucket lfu f) \<longrightarrow> freq_of lfu k = Some f)
     \<and> (\<forall>f. distinct (bucket lfu f))
     \<and> (nodes lfu \<noteq> [] \<longrightarrow>
          bucket lfu (minFreq lfu) \<noteq> [] \<and> (\<forall>f. bucket lfu f \<noteq> [] \<longrightarrow> minFreq lfu \<le> f))"

definition el_wf :: "EvictionList \<Rightarrow> bool" where
  "el_wf el = (case el of LRU lru \<Rightarrow> lru_wf lru | LFU lfu \<Rightarrow> lfu_wf lfu | FIFO fifo \<Rightarrow> fifo_wf fifo)"

definition el_keys :: "EvictionList \<Rightarrow> string set" where
  "el_keys el =
     (case el of
        LRU lru \<Rightarrow> set (lru_list lru)
      | LFU lfu \<Rightarrow> fst ` set (nodes lfu)
      | FIFO fifo \<Rightarrow> set (fifo_list fifo))"

text \<open>The frequency under which an LFU list holds a key, and the invariant of a shard:
  accounting, a well-formed eviction list over exactly the stored keys, no empty key,
  no negative access count or size and, under LFU, every stored key indexed at frequency
  \<open>max 1 AccessCount\<close>.\<close>

definition is_LFU :: "EvictionList \<Rightarrow> bool" where
  "is_LFU el = (case el of LFU lfu \<Rightarrow> True | _ \<Rightarrow> False)"

definition el_freq :: "EvictionList \<Rightarrow> string \<Rightarrow> int option" where
  "el_freq el k = (case el of LFU lfu \<Rightarrow> freq_of lfu k | _ \<Rightarrow> None)"


definition lfu_agrees :: "EvictionList \<Rightarrow> (string \<times> CacheItem) list \<Rightarrow> bool" where
  "lfu_agrees el d \<longleftrightarrow>
     (is_LFU el \<longrightarrow>
        (\<forall>k item. map_of d k = Some item \<longrightarrow> el_freq el k = Some (max 1 (AccessCount item))))"

definition shard_inv :: "CacheShard \<Rightarrow> bool" where
  "shard_inv s \<longleftrightarrow>
     accounting s
     \<and> el_wf (evictionList s)
     \<and> el_keys (evictionList s) = fst ` set (data s)
     \<and> [] \<notin> fst ` set (data s)
     \<and> (\<forall>k item. map_of (data s) k = Some item \<longrightarrow> 0 \<le> AccessCount item \<and> 0 \<le> Size item)
     \<and> lfu_agrees (evictionList s) (data s)"

text \<open>A bounded shard is within its budget.\<close>

definition within_budget :: "CacheShard \<Rightarrow> bool" where
  "within_budget s \<longleftrightarrow> (0 < maxSize s \<longrightarrow> currentSize s \<le> maxSize s)"

text \<open>A cache whose shards all satisfy the shard invariant within the same budget.\<close>

definition cache_ok :: "int \<Rightarrow> Cache \<Rightarrow> bool" where
  "cache_ok b c \<longleftrightarrow>
     0 < shardCount c \<and> length (shards c) = nat (shardCount c)
     \<and> (\<forall>sh\<in>set (shards c). shard_inv sh \<and> within_budget sh \<and> maxSize sh = b)"


text \<open>An operation that does not store under the key \<open>k\<close>, and a shard in which the entry
  of \<open>k\<close>, if there is one, expires at \<open>e\<close>.\<close>

fun keeps_entry :: "string \<Rightarrow> shard_op \<Rightarrow> bool" where
  "keeps_entry k (ShardSet now key val ttl) = (key \<noteq> k)"
| "keeps_entry k (ShardGet now key) = True"
| "keeps_entry k (ShardDelete key) = True"
| "keeps_entry k ShardClear = True"

definition expires_at :: "string \<Rightarrow> int \<Rightarrow> CacheShard \<Rightarrow> bool" where
  "expires_at k e s \<longleftrightarrow> (\<forall>item. map_of (data s) k = Some item \<longrightarrow> ExpireAt item = Some e)"
section \<open>Shard count and budgets\<close>

lemma roundLoop_returns:
  "\<exists>j\<ge>k. roundLoop (2 ^ k) n = Some (2 ^ j) \<and> n \<le> 2 ^ j \<and> (j = k \<or> 2 ^ (j - 1) < n)"
proof (induction "nat (n - 2 ^ k)" arbitrary: k rule: less_induct)
  case less
  show ?case
  proof (cases "(2::int) ^ k < n")
    case False
    then show ?thesis by (subst roundLoop.simps) auto
  next
    case True
    have "nat (n - 2 ^ Suc k) < nat (n - 2 ^ k)" using True by simp
    from less[OF this] obtain j where j: "j \<ge> Suc k" "roundLoop (2 ^ Suc k) n = Some (2 ^ j)"
      "n \<le> 2 ^ j" "j = Suc k \<or> 2 ^ (j - 1) < n" by blast
    have "roundLoop (2 ^ k) n = roundLoop (2 ^ Suc k) n"
      using True by (subst roundLoop.simps) (simp add: push_bit_eq_mult mult.commute)
    moreover have "2 ^ (j - 1) < n" using j(1,4) True by auto
    ultimately show ?thesis using j by (intro exI[of _ j]) auto
  qed
qed

lemma and_pred_pow2:
  "\<forall>c\<in>{4..256::int}. c AND (c - 1) = 0 \<longrightarrow> c \<in> {4, 8, 16, 32, 64, 128, 256}"
  by code_simp

lemma getOptimalShardCount_next_pow2:
  "\<exists>k. getOptimalShardCount n = Some (2 ^ k)
           \<and> max 4 (min 256 (2 * n)) \<le> (2::int) ^ k
           \<and> (\<forall>j. max 4 (min 256 (2 * n)) \<le> (2::int) ^ j \<longrightarrow> (2::int) ^ k \<le> 2 ^ j)
           \<and> (4::int) \<le> 2 ^ k \<and> (2::int) ^ k \<le> 256"
proof -
  define c where "c = max 4 (min 256 (2 * n))"
  have c: "4 \<le> c" "c \<le> 256" by (auto simp: c_def)
  have g: "getOptimalShardCount n = roundToPowerOfTwo c"
    by (auto simp: getOptimalShardCount_def Let_def c_def mult.commute)
  show ?thesis
  proof (cases "c AND (c - 1) = 0")
    case True
    with c and_pred_pow2 have "c \<in> {4, 8, 16, 32, 64, 128, 256}" by auto
    then obtain k where k: "c = 2 ^ k" 
      by (elim insertE emptyE) (rule that[of 2] that[of 3] that[of 4] that[of 5] that[of 6] that[of 7] that[of 8], simp)+
    have "roundToPowerOfTwo c = Some c" using True c by (simp add: roundToPowerOfTwo_def)
    then show ?thesis using k c g unfolding c_def[symmetric] by (intro exI[of _ k]) auto
  next
    case False
    from roundLoop_returns[of 0 c] obtain j where j: "roundLoop 1 c = Some (2 ^ j)" "c \<le> 2 ^ j"
      "j = 0 \<or> 2 ^ (j - 1) < c" by auto
    have j0: "j \<noteq> 0" using j(2) c by (cases j) auto
    then have lt: "(2::int) ^ (j - 1) < c" using j(3) by simp
    have "roundToPowerOfTwo c = Some (2 ^ j)" using False c j(1) by (simp add: roundToPowerOfTwo_def)
    moreover have "(2::int) ^ j \<le> 2 ^ i" if "c \<le> 2 ^ i" for i
    proof -
      have "(2::int) ^ (j - 1) < 2 ^ i" using lt that by (rule less_le_trans)
      then have "j - 1 < i" by simp
      then show ?thesis using j0 by simp
    qed
    moreover have "(2::int) ^ j \<le> 256"
    proof -
      have "c \<le> (2::int) ^ 8" using c by simp
      with lt have "(2::int) ^ (j - 1) < 2 ^ 8" by (rule less_le_trans)
      then have "j - 1 < 8" by (simp only: power_strict_increasing_iff)
      then have "j \<le> 8" by simp
      then have "(2::int) ^ j \<le> 2 ^ 8" by (simp only: power_increasing_iff)
      then show ?thesis by simp
    qed
    moreover have "4 \<le> (2::int) ^ j" using c j(2) by simp
    ultimately show ?thesis using g j(2) unfolding c_def[symmetric] by (intro exI[of _ j]) auto
  qed
qed

text \<open>
  C10. For every logical CPU count \<open>n \<ge> 1\<close>, \<open>getOptimalShardCount\<close> returns, and
  what it returns is the least power of two that is at least \<open>2 * n\<close> clamped into
  \<open>[4, 256]\<close>; it is a power of two between 4 and 256.
\<close>

theorem shard_count_selection:
  assumes "1 \<le> n"
  shows "\<exists>k. getOptimalShardCount n = Some (2 ^ k)
           \<and> max 4 (min 256 (2 * n)) \<le> (2::int) ^ k
           \<and> (\<forall>j. max 4 (min 256 (2 * n)) \<le> (2::int) ^ j \<longrightarrow> (2::int) ^ k \<le> 2 ^ j)
           \<and> (4::int) \<le> 2 ^ k \<and> (2::int) ^ k \<le> 256"
  by (rule getOptimalShardCount_next_pow2)

theorem shard_count_selection_witness:
  "(1::int) \<le> 3 \<and> getOptimalShardCount 3 = Some 8 \<and>
   (\<exists>k. getOptimalShardCount 3 = Some (2 ^ k) \<and> (4::int) \<le> 2 ^ k \<and> (2::int) ^ k \<le> 256)"
proof -
  have h: "(1::int) \<le> 3" by simp
  have v: "getOptimalShardCount 3 = Some 8" by code_simp
  from shard_count_selection[OF h] h v show ?thesis by blast
qed

lemma sum_list_const_map: "sum_list (map (\<lambda>i. m) xs) = int (length xs) * (m::int)"
  by (induction xs) (auto simp: algebra_simps)

lemma maxSize_NewCacheShard: "maxSize (NewCacheShard m p c cs) = m"
  by (simp add: NewCacheShard_def)

lemma NewCache_shape:
  assumes "getOptimalShardCount numCPU = Some n"
  shows "\<exists>g p cmp cs. NewCache opts numCPU =
           Some \<lparr>cache_maxSize = g, cache_evictionPolicy = p,
                 shards = map (\<lambda>i. NewCacheShard
                                (if go_quot g n = 0 \<and> g > 0 then 1 else go_quot g n) p cmp cs)
                              [0..<nat n],
                 shardCount = n\<rparr>"
  unfolding NewCache_def Let_def assms option.case by blast

lemma budget_sum_iff:
  assumes "4 \<le> n" "0 \<le> g"
  shows "n * (if go_quot g n = 0 \<and> g > 0 then 1 else go_quot g n) = g \<longleftrightarrow> g mod n = 0"
proof -
  have q: "go_quot g n = g div n" using assms by (cases "g = 0") (auto simp: go_quot_def)
  show ?thesis
  proof (cases "g div n = 0 \<and> g > 0")
    case True
    then have "g < n" using assms by (auto simp: zdiv_eq_0_iff)
    then show ?thesis using True q assms by simp
  next
    case False
    have "n * (g div n) = g \<longleftrightarrow> g mod n = 0"
      by (metis mult_div_mod_eq add.right_neutral add_left_cancel)
    then show ?thesis using False q by auto
  qed
qed

text \<open>
  C8, as amended. For every list of options, \<open>NewCache\<close> returns a cache whose shards
  all have the budget \<open>maxSize / shardCount\<close> (truncated), or 1 when that quotient is
  0 and \<open>maxSize > 0\<close>. The budgets sum to \<open>shardCount\<close> times that budget; for
  \<open>maxSize \<ge> 0\<close> the sum is the cache's \<open>maxSize\<close> exactly when \<open>shardCount\<close>
  divides \<open>maxSize\<close>.
\<close>

theorem budget_partition:
  assumes "1 \<le> numCPU"
  shows "\<exists>c. NewCache opts numCPU = Some c
     \<and> 0 < shardCount c \<and> length (shards c) = nat (shardCount c)
     \<and> (\<forall>sh \<in> set (shards c). maxSize sh =
          (if go_quot (cache_maxSize c) (shardCount c) = 0 \<and> cache_maxSize c > 0 then 1
           else go_quot (cache_maxSize c) (shardCount c)))
     \<and> totalShardMaxSize c = shardCount c *
          (if go_quot (cache_maxSize c) (shardCount c) = 0 \<and> cache_maxSize c > 0 then 1
           else go_quot (cache_maxSize c) (shardCount c))
     \<and> (0 \<le> cache_maxSize c \<longrightarrow>
          (totalShardMaxSize c = cache_maxSize c \<longleftrightarrow> cache_maxSize c mod shardCount c = 0))"
proof -
  from getOptimalShardCount_next_pow2[of numCPU] obtain k where
    k: "getOptimalShardCount numCPU = Some (2 ^ k)" "(4::int) \<le> 2 ^ k" by blast
  define n :: int where "n = 2 ^ k"
  have n: "getOptimalShardCount numCPU = Some n" "4 \<le> n" using k by (simp_all add: n_def)
  from NewCache_shape[OF n(1), of opts] obtain g p cmp cs where
    c: "NewCache opts numCPU =
           Some \<lparr>cache_maxSize = g, cache_evictionPolicy = p,
                 shards = map (\<lambda>i. NewCacheShard
                                (if go_quot g n = 0 \<and> g > 0 then 1 else go_quot g n) p cmp cs)
                              [0..<nat n],
                 shardCount = n\<rparr>" by blast
  define b where "b = (if go_quot g n = 0 \<and> g > 0 then 1 else go_quot g n)"
  have tot: "sum_list (map maxSize (map (\<lambda>i. NewCacheShard b p cmp cs) [0..<nat n])) = n * b"
    using n(2) by (simp add: o_def maxSize_NewCacheShard sum_list_const_map)
  have iff: "0 \<le> g \<longrightarrow> (n * b = g \<longleftrightarrow> g mod n = 0)"
    unfolding b_def by (rule impI) (rule budget_sum_iff[OF n(2)])
  show ?thesis
    unfolding c
    apply (rule exI, rule conjI, rule refl)
    using n(2) tot iff unfolding b_def
    by (simp add: totalShardMaxSize_def maxSize_NewCacheShard)
qed

theorem budget_partition_witness:
  "(1::int) \<le> 1 \<and> map_option totalShardMaxSize (NewCache [WithMaxSize 16] 1) = Some 16
   \<and> (\<exists>c. NewCache [WithMaxSize 16] 1 = Some c \<and> 0 < shardCount c)"
proof -
  have h: "(1::int) \<le> 1" by simp
  have v: "map_option totalShardMaxSize (NewCache [WithMaxSize 16] 1) = Some 16" by code_simp
  from budget_partition[OF h, of "[WithMaxSize 16]"] h v show ?thesis by blast
qed

text \<open>
  C8, as stated, fails: with \<open>maxSize = 10\<close> on one CPU there are four shards of
  budget 2, which sum to 8 and not to 10.
\<close>

theorem budget_partition_counterexample:
  "map_option totalShardMaxSize (NewCache [WithMaxSize 10] 1) = Some 8
   \<and> map_option cache_maxSize (NewCache [WithMaxSize 10] 1) = Some 10"
  by code_simp

section \<open>The eviction loop and the store step\<close>

lemma evictOne_data:
  "map_of (data (snd (evictOne s))) k = Some item \<Longrightarrow> map_of (data s) k = Some item"
  by (auto simp: evictOne_def Let_def AList.delete_conv' split: if_splits option.splits)

lemma evictOne_fields:
  "compressor (snd (evictOne s)) = compressor s"
  "maxSize (snd (evictOne s)) = maxSize s"
  "compressSize (snd (evictOne s)) = compressSize s"
  "evictionPolicy (snd (evictOne s)) = evictionPolicy s"
  by (auto simp: evictOne_def Let_def split: option.splits)

lemma evictIfNeeded_idle:
  "\<not> (maxSize s > 0 \<and> currentSize s + n > maxSize s) \<Longrightarrow> evictIfNeeded n s = s"
  by (subst evictIfNeeded.simps) (simp only: if_False)

lemma evictIfNeeded_more:
  "maxSize s > 0 \<and> currentSize s + n > maxSize s \<Longrightarrow> fst (evictOne s) \<Longrightarrow>
   evictIfNeeded n s = evictIfNeeded n (snd (evictOne s))"
  by (subst evictIfNeeded.simps) (simp only: if_True simp_thms)

lemma evictIfNeeded_stop:
  "maxSize s > 0 \<and> currentSize s + n > maxSize s \<Longrightarrow> \<not> fst (evictOne s) \<Longrightarrow>
   evictIfNeeded n s = snd (evictOne s)"
  by (subst evictIfNeeded.simps) (simp only: if_True if_False simp_thms)

lemma evictIfNeeded_rel:
  assumes refl: "\<And>s. R s s"
    and step: "\<And>s. R s (snd (evictOne s))"
    and trans: "\<And>a b c. R a b \<Longrightarrow> R b c \<Longrightarrow> R a c"
  shows "R s (evictIfNeeded n s)"
proof (induction n s rule: evictIfNeeded.induct)
  case (1 n s)
  show ?case
  proof (cases "maxSize s > 0 \<and> currentSize s + n > maxSize s")
    case False
    show ?thesis unfolding evictIfNeeded_idle[OF False] by (rule refl)
  next
    case True
    show ?thesis
    proof (cases "fst (evictOne s)")
      case False
      show ?thesis unfolding evictIfNeeded_stop[OF True False] by (rule step)
    next
      case e: True
      have "R (snd (evictOne s)) (evictIfNeeded n (snd (evictOne s)))"
        by (rule "1.IH"[OF True e])
      with step[of s] have "R s (evictIfNeeded n (snd (evictOne s)))" by (rule trans)
      then show ?thesis unfolding evictIfNeeded_more[OF True e] .
    qed
  qed
qed

lemma evictIfNeeded_data:
  "map_of (data (evictIfNeeded n s)) k = Some item \<Longrightarrow> map_of (data s) k = Some item"
proof -
  have "\<forall>k item. map_of (data (evictIfNeeded n s)) k = Some item
          \<longrightarrow> map_of (data s) k = Some item"
    by (rule evictIfNeeded_rel) (auto dest: evictOne_data)
  then show "map_of (data (evictIfNeeded n s)) k = Some item \<Longrightarrow> map_of (data s) k = Some item"
    by blast
qed

lemma evictIfNeeded_fields:
  "compressor (evictIfNeeded n s) = compressor s \<and> maxSize (evictIfNeeded n s) = maxSize s
   \<and> compressSize (evictIfNeeded n s) = compressSize s
   \<and> evictionPolicy (evictIfNeeded n s) = evictionPolicy s"
  by (rule evictIfNeeded_rel) (simp_all add: evictOne_fields)

lemma storeItem_fields:
  "compressor (storeItem now key val ttl s) = compressor s"
  "maxSize (storeItem now key val ttl s) = maxSize s"
  "compressSize (storeItem now key val ttl s) = compressSize s"
  "evictionPolicy (storeItem now key val ttl s) = evictionPolicy s"
  by (auto simp: storeItem_def Let_def split: option.splits)

lemma storeItem_other:
  "k \<noteq> key \<Longrightarrow> map_of (data (storeItem now key val ttl s)) k = map_of (data s) k"
  by (auto simp: storeItem_def Let_def AList.update_conv' split: option.splits)

lemma storeItem_old:
  "map_of (data s) key = Some oldItem \<Longrightarrow>
   map_of (data (storeItem now key val ttl s)) =
     (map_of (data s))(key \<mapsto>
        oldItem\<lparr>Value := (case compressedData s val of Some cd \<Rightarrow> cd | None \<Rightarrow> val),
                Size := int (length (case compressedData s val of Some cd \<Rightarrow> cd | None \<Rightarrow> val)),
                ExpireAt := (if ttl > 0 then Some (now + ttl) else None),
                AccessAt := now,
                Compressed := (compressedData s val \<noteq> None)\<rparr>)"
  by (simp add: storeItem_def Let_def AList.update_conv')

lemma storeItem_old_size:
  "map_of (data s) key = Some oldItem \<Longrightarrow>
   currentSize (storeItem now key val ttl s) =
     currentSize s - Size oldItem
       + int (length (case compressedData s val of Some cd \<Rightarrow> cd | None \<Rightarrow> val))"
  by (simp add: storeItem_def Let_def)

lemma Get_data:
  "data (snd (snd (CacheShard_Get now key s))) =
     (case map_of (data s) key of
        None \<Rightarrow> data s
      | Some item \<Rightarrow>
          if ExpireAt item \<noteq> None \<and> now > the (ExpireAt item) then data s
          else AList.update key (item\<lparr>AccessAt := now, AccessCount := AccessCount item + 1\<rparr>)
                 (data s))"
  by (simp add: CacheShard_Get_def Let_def split: option.splits)

lemma Get_fields:
  "compressor (snd (snd (CacheShard_Get now key s))) = compressor s"
  "maxSize (snd (snd (CacheShard_Get now key s))) = maxSize s"
  "currentSize (snd (snd (CacheShard_Get now key s))) = currentSize s"
  "currentCount (snd (snd (CacheShard_Get now key s))) = currentCount s"
  by (simp_all add: CacheShard_Get_def Let_def split: option.splits)

section \<open>Accounting\<close>

lemma alist_update_new:
  "map_of al k = None \<Longrightarrow> AList.update k v al = al @ [(k, v)]"
  by (induction al) (auto split: if_splits)

lemma alist_sum_update_old:
  "distinct (map fst al) \<Longrightarrow> map_of al k = Some v0 \<Longrightarrow>
   sum_list (map (Size \<circ> snd) (AList.update k v al))
     = sum_list (map (Size \<circ> snd) al) - Size v0 + Size v"
  by (induction al) (auto simp: alist_update_new map_of_eq_None_iff[symmetric] split: if_splits)

lemma alist_length_update_old:
  "map_of al k = Some v0 \<Longrightarrow> length (AList.update k v al) = length al"
  by (induction al) (auto split: if_splits)

lemma alist_sum_delete:
  "distinct (map fst al) \<Longrightarrow> map_of al k = Some v0 \<Longrightarrow>
   sum_list (map (Size \<circ> snd) (AList.delete k al)) = sum_list (map (Size \<circ> snd) al) - Size v0"
  by (induction al) (auto simp: map_of_eq_None_iff[symmetric] image_iff split: if_splits)

lemma alist_length_delete:
  "distinct (map fst al) \<Longrightarrow> map_of al k = Some v0 \<Longrightarrow>
   int (length (AList.delete k al)) = int (length al) - 1"
  by (induction al) (auto simp: image_iff split: if_splits)

lemma accounting_storeItem: "accounting s \<Longrightarrow> accounting (storeItem now key val ttl s)"
  by (auto simp: accounting_def storeItem_def Let_def AList.distinct_update alist_sum_update_old
        alist_length_update_old alist_update_new split: option.splits)

lemma accounting_evictOne: "accounting s \<Longrightarrow> accounting (snd (evictOne s))"
  by (auto simp: accounting_def evictOne_def Let_def AList.distinct_delete alist_sum_delete
        alist_length_delete split: option.splits)

lemma accounting_evictIfNeeded: "accounting s \<Longrightarrow> accounting (evictIfNeeded n s)"
proof -
  have "accounting s \<longrightarrow> accounting (evictIfNeeded n s)"
    by (rule evictIfNeeded_rel) (simp_all add: accounting_evictOne)
  then show "accounting s \<Longrightarrow> accounting (evictIfNeeded n s)" by simp
qed

lemma accounting_Set: "accounting s \<Longrightarrow> accounting (snd (CacheShard_Set now key val ttl s))"
  by (simp add: CacheShard_Set_def accounting_evictIfNeeded accounting_storeItem)

lemma accounting_Get: "accounting s \<Longrightarrow> accounting (snd (snd (CacheShard_Get now key s)))"
  by (auto simp: accounting_def CacheShard_Get_def Let_def AList.distinct_update
        alist_sum_update_old alist_length_update_old split: option.splits)

lemma accounting_Delete: "accounting s \<Longrightarrow> accounting (CacheShard_Delete key s)"
  by (auto simp: accounting_def CacheShard_Delete_def AList.distinct_delete alist_sum_delete
        alist_length_delete split: option.splits)

lemma accounting_Clear: "accounting (CacheShard_Clear s)"
  by (simp add: accounting_def CacheShard_Clear_def)

lemma accounting_apply_op: "accounting s \<Longrightarrow> accounting (apply_op op s)"
  by (cases op) (simp_all add: accounting_Set accounting_Get accounting_Delete accounting_Clear)

lemma accounting_fold: "accounting s \<Longrightarrow> accounting (fold apply_op ops s)"
  by (induction ops arbitrary: s) (simp_all add: accounting_apply_op)

lemma accounting_New: "accounting (NewCacheShard m p c cs)"
  by (simp add: accounting_def NewCacheShard_def)

text \<open>
  C3. A new shard satisfies the accounting equations, every operation (and so every
  sequence of operations, evictions included) preserves them, and hence they hold in
  every state a shard reaches: \<open>currentSize\<close> is the sum of \<open>Size\<close> over the stored
  items, \<open>currentCount\<close> is their number, and the keys are unique.
\<close>

theorem accounting_invariant:
  "accounting (NewCacheShard m p c cs)
   \<and> (accounting s \<longrightarrow> accounting (apply_op op s) \<and> accounting (run ops s))
   \<and> currentSize (run ops (NewCacheShard m p c cs))
       = sum_list (map (Size \<circ> snd) (data (run ops (NewCacheShard m p c cs))))
   \<and> currentCount (run ops (NewCacheShard m p c cs))
       = int (length (data (run ops (NewCacheShard m p c cs))))
   \<and> distinct (map fst (data (run ops (NewCacheShard m p c cs))))"
proof -
  have "accounting (run ops (NewCacheShard m p c cs))"
    unfolding run_def by (rule accounting_fold[OF accounting_New])
  then show ?thesis
    using accounting_New[of m p c cs] accounting_apply_op[of s op] accounting_fold[of s ops]
    by (simp add: run_def accounting_def)
qed

theorem accounting_invariant_witness:
  "accounting (NewCacheShard 3 ''LFU'' None 1024)
   \<and> accounting (apply_op (ShardSet 1 ''a'' [1, 2] 0) (NewCacheShard 3 ''LFU'' None 1024))
   \<and> currentSize (run [ShardSet 1 ''a'' [1, 2] 0, ShardSet 2 ''b'' [3, 4] 0, ShardGet 3 ''b'',
                       ShardSet 4 ''c'' [5] 0, ShardDelete ''a'']
                  (NewCacheShard 3 ''LFU'' None 1024)) = 3"
proof -
  have v: "sum_list (map (Size \<circ> snd)
             (data (run [ShardSet 1 ''a'' [1, 2] 0, ShardSet 2 ''b'' [3, 4] 0, ShardGet 3 ''b'',
                         ShardSet 4 ''c'' [5] 0, ShardDelete ''a'']
                  (NewCacheShard 3 ''LFU'' None 1024)))) = 3"
    by code_simp
  have a: "accounting (NewCacheShard 3 ''LFU'' None 1024)"
    and b: "accounting (NewCacheShard 3 ''LFU'' None 1024) \<longrightarrow>
             accounting (apply_op (ShardSet 1 ''a'' [1, 2] 0) (NewCacheShard 3 ''LFU'' None 1024))"
    and c: "currentSize (run [ShardSet 1 ''a'' [1, 2] 0, ShardSet 2 ''b'' [3, 4] 0,
                              ShardGet 3 ''b'', ShardSet 4 ''c'' [5] 0, ShardDelete ''a'']
                  (NewCacheShard 3 ''LFU'' None 1024))
            = sum_list (map (Size \<circ> snd)
             (data (run [ShardSet 1 ''a'' [1, 2] 0, ShardSet 2 ''b'' [3, 4] 0, ShardGet 3 ''b'',
                         ShardSet 4 ''c'' [5] 0, ShardDelete ''a'']
                  (NewCacheShard 3 ''LFU'' None 1024))))"
    using accounting_invariant[of 3 "''LFU''" None 1024 "NewCacheShard 3 ''LFU'' None 1024"
         "ShardSet 1 ''a'' [1, 2] 0"
         "[ShardSet 1 ''a'' [1, 2] 0, ShardSet 2 ''b'' [3, 4] 0, ShardGet 3 ''b'',
           ShardSet 4 ''c'' [5] 0, ShardDelete ''a'']"]
    by blast+
  from a b c v show ?thesis by (simp only: simp_thms)
qed

section \<open>Overwriting a key\<close>

text \<open>
  C9. When \<open>key\<close> holds \<open>oldItem\<close>, \<open>Set\<close> replaces it by \<open>oldItem\<close> with new
  \<open>Value\<close>, \<open>Size\<close>, \<open>ExpireAt\<close>, \<open>AccessAt\<close> and \<open>Compressed\<close>, its
  \<open>CreatedAt\<close> and \<open>AccessCount\<close> unchanged, and changes no other entry of the map.
  Budget enforcement afterwards can only remove entries: every entry left when \<open>Set\<close>
  returns is the new item (under \<open>key\<close>) or an entry that was there before, unchanged;
  and when the new total fits the budget nothing is removed.
\<close>

theorem overwrite_frame:
  assumes "map_of (data s) key = Some oldItem"
  shows "CreatedAt (overwritten now val ttl s oldItem) = CreatedAt oldItem
     \<and> AccessCount (overwritten now val ttl s oldItem) = AccessCount oldItem
     \<and> map_of (data (storeItem now key val ttl s))
           = (map_of (data s))(key \<mapsto> overwritten now val ttl s oldItem)
     \<and> (\<forall>k item. map_of (data (snd (CacheShard_Set now key val ttl s))) k = Some item \<longrightarrow>
           (if k = key then item = overwritten now val ttl s oldItem
            else map_of (data s) k = Some item))
     \<and> (\<not> (maxSize s > 0
             \<and> currentSize s - Size oldItem + Size (overwritten now val ttl s oldItem) > maxSize s)
          \<longrightarrow> map_of (data (snd (CacheShard_Set now key val ttl s)))
                = (map_of (data s))(key \<mapsto> overwritten now val ttl s oldItem))"
proof -
  have st: "map_of (data (storeItem now key val ttl s)) = (map_of (data s))(key \<mapsto> overwritten now val ttl s oldItem)"
    unfolding overwritten_def by (rule storeItem_old[OF assms(1)])
  have frame: "(if k = key then item = overwritten now val ttl s oldItem else map_of (data s) k = Some item)"
    if "map_of (data (snd (CacheShard_Set now key val ttl s))) k = Some item" for k item
  proof -
    from that have "map_of (data (evictIfNeeded 0 (storeItem now key val ttl s))) k = Some item"
      by (simp add: CacheShard_Set_def)
    then have "map_of (data (storeItem now key val ttl s)) k = Some item"
      by (rule evictIfNeeded_data)
    then show ?thesis by (simp add: st split: if_splits)
  qed
  have fits: "map_of (data (snd (CacheShard_Set now key val ttl s)))
             = (map_of (data s))(key \<mapsto> overwritten now val ttl s oldItem)"
    if "\<not> (maxSize s > 0 \<and> currentSize s - Size oldItem + Size (overwritten now val ttl s oldItem) > maxSize s)"
  proof -
    have "evictIfNeeded 0 (storeItem now key val ttl s) = storeItem now key val ttl s"
      using that by (intro evictIfNeeded_idle)
        (simp add: storeItem_fields storeItem_old_size[OF assms(1)] overwritten_def)
    then show ?thesis by (simp add: CacheShard_Set_def st)
  qed
  have kept: "CreatedAt (overwritten now val ttl s oldItem) = CreatedAt oldItem
     \<and> AccessCount (overwritten now val ttl s oldItem) = AccessCount oldItem"
    by (simp add: overwritten_def)
  show ?thesis using kept st frame fits by blast
qed

theorem overwrite_frame_witness:
  "map_of (data (run [ShardSet 1 ''a'' [1] 0, ShardGet 2 ''a'']
                   (NewCacheShard 3 ''LRU'' None 1024))) ''a''
     = Some \<lparr>Key = ''a'', Value = [1], Size = 1, ExpireAt = None, CreatedAt = 1, AccessAt = 2,
             AccessCount = 1, Compressed = False\<rparr>
   \<and> CreatedAt (overwritten 9 [7, 8] 5
         (run [ShardSet 1 ''a'' [1] 0, ShardGet 2 ''a''] (NewCacheShard 3 ''LRU'' None 1024))
         \<lparr>Key = ''a'', Value = [1], Size = 1, ExpireAt = None, CreatedAt = 1, AccessAt = 2,
          AccessCount = 1, Compressed = False\<rparr>) = 1
   \<and> map_of (data (storeItem 9 ''a'' [7, 8] 5
         (run [ShardSet 1 ''a'' [1] 0, ShardGet 2 ''a''] (NewCacheShard 3 ''LRU'' None 1024))))
       ''a''
     = Some \<lparr>Key = ''a'', Value = [7, 8], Size = 2, ExpireAt = Some 14, CreatedAt = 1,
             AccessAt = 9, AccessCount = 1, Compressed = False\<rparr>"
proof -
  have h: "map_of (data (run [ShardSet 1 ''a'' [1] 0, ShardGet 2 ''a'']
                   (NewCacheShard 3 ''LRU'' None 1024))) ''a''
     = Some \<lparr>Key = ''a'', Value = [1], Size = 1, ExpireAt = None, CreatedAt = 1, AccessAt = 2,
             AccessCount = 1, Compressed = False\<rparr>"
    by code_simp
  have new: "map_of (data (storeItem 9 ''a'' [7, 8] 5
         (run [ShardSet 1 ''a'' [1] 0, ShardGet 2 ''a''] (NewCacheShard 3 ''LRU'' None 1024))))
       ''a''
     = Some \<lparr>Key = ''a'', Value = [7, 8], Size = 2, ExpireAt = Some 14, CreatedAt = 1,
             AccessAt = 9, AccessCount = 1, Compressed = False\<rparr>"
    by code_simp
  have "CreatedAt (overwritten 9 [7, 8] 5
         (run [ShardSet 1 ''a'' [1] 0, ShardGet 2 ''a''] (NewCacheShard 3 ''LRU'' None 1024))
         \<lparr>Key = ''a'', Value = [1], Size = 1, ExpireAt = None, CreatedAt = 1, AccessAt = 2,
          AccessCount = 1, Compressed = False\<rparr>) = 1"
    using overwrite_frame[OF h, of 9 "[7, 8]" 5] by simp
  with h new show ?thesis by (simp only: simp_thms)
qed

section \<open>Round trip\<close>

lemma compressedData_Some:
  "compressedData s v = Some cd \<Longrightarrow> \<exists>c. compressor s = Some c \<and> Compress c v = Inr cd"
  by (auto simp: compressedData_def split: if_splits option.splits sum.splits)

lemma storeItem_key_ttl0:
  assumes law: "\<forall>c cd. compressor s = Some c \<longrightarrow> Compress c v = Inr cd \<longrightarrow> Decompress c cd = Inr v"
  shows "\<exists>item. map_of (data (storeItem now k v 0 s)) k = Some item \<and> ExpireAt item = None \<and>
          (if Compressed item
           then (\<exists>cmp. compressor s = Some cmp \<and> Decompress cmp (Value item) = Inr v)
           else Value item = v)"
proof (cases "compressedData s v")
  case None
  then show ?thesis
    by (auto simp: storeItem_def Let_def AList.update_conv' split: option.splits)
next
  case (Some cd)
  with compressedData_Some[OF Some] law show ?thesis
    by (auto simp: storeItem_def Let_def AList.update_conv' split: option.splits)
qed

lemma holds_value_Set_same:
  assumes law: "\<forall>c cd. compressor s = Some c \<longrightarrow> Compress c v = Inr cd \<longrightarrow> Decompress c cd = Inr v"
  shows "holds_value (compressor s) v k (snd (CacheShard_Set now k v 0 s))"
proof -
  from storeItem_key_ttl0[OF law, of now k] obtain item0 where
    i0: "map_of (data (storeItem now k v 0 s)) k = Some item0" "ExpireAt item0 = None"
      "(if Compressed item0
           then (\<exists>cmp. compressor s = Some cmp \<and> Decompress cmp (Value item0) = Inr v)
           else Value item0 = v)" by blast
  have c: "compressor (snd (CacheShard_Set now k v 0 s)) = compressor s"
    by (simp add: CacheShard_Set_def evictIfNeeded_fields storeItem_fields)
  have "item = item0" if "map_of (data (snd (CacheShard_Set now k v 0 s))) k = Some item" for item
  proof -
    from that have "map_of (data (evictIfNeeded 0 (storeItem now k v 0 s))) k = Some item"
      by (simp add: CacheShard_Set_def)
    then have "map_of (data (storeItem now k v 0 s)) k = Some item" by (rule evictIfNeeded_data)
    with i0(1) show ?thesis by simp
  qed
  with i0 c show ?thesis unfolding holds_value_def by blast
qed

lemma holds_value_Set_other:
  assumes "holds_value c v k s" "key \<noteq> k"
  shows "holds_value c v k (snd (CacheShard_Set now key val ttl s))"
proof -
  have c: "compressor (snd (CacheShard_Set now key val ttl s)) = compressor s"
    by (simp add: CacheShard_Set_def evictIfNeeded_fields storeItem_fields)
  have "map_of (data s) k = Some item"
    if "map_of (data (snd (CacheShard_Set now key val ttl s))) k = Some item" for item
  proof -
    from that have "map_of (data (evictIfNeeded 0 (storeItem now key val ttl s))) k = Some item"
      by (simp add: CacheShard_Set_def)
    then have "map_of (data (storeItem now key val ttl s)) k = Some item"
      by (rule evictIfNeeded_data)
    then show ?thesis using assms(2) by (simp add: storeItem_other)
  qed
  with assms(1) c show ?thesis unfolding holds_value_def by metis
qed

lemma holds_value_Get:
  assumes "holds_value c v k s"
  shows "holds_value c v k (snd (snd (CacheShard_Get now key s)))"
proof (cases "map_of (data s) key")
  case None
  then show ?thesis using assms by (simp add: holds_value_def Get_data Get_fields)
next
  case (Some item)
  show ?thesis
  proof (cases "ExpireAt item \<noteq> None \<and> now > the (ExpireAt item)")
    case True
    then show ?thesis using assms Some by (simp add: holds_value_def Get_data Get_fields)
  next
    case False
    show ?thesis
    proof (cases "key = k")
      case True
      with assms Some have "ExpireAt item = None \<and>
        (if Compressed item
         then (\<exists>cmp. c = Some cmp \<and> Decompress cmp (Value item) = Inr v)
         else Value item = v)" by (simp add: holds_value_def)
      then show ?thesis using assms Some False True
        by (simp add: holds_value_def Get_data Get_fields AList.update_conv')
    next
      case ne: False
      then show ?thesis using assms Some False
        by (simp add: holds_value_def Get_data Get_fields AList.update_conv')
    qed
  qed
qed

lemma holds_value_Delete:
  assumes "holds_value c v k s" "key \<noteq> k"
  shows "holds_value c v k (CacheShard_Delete key s)"
  using assms
  by (auto simp: holds_value_def CacheShard_Delete_def AList.delete_conv' split: option.splits)

lemma holds_value_apply_op:
  "holds_value c v k s \<Longrightarrow> preserves_key k op \<Longrightarrow> holds_value c v k (apply_op op s)"
  by (cases op) (simp_all add: holds_value_Set_other holds_value_Get holds_value_Delete)

lemma holds_value_fold:
  "holds_value c v k s \<Longrightarrow> \<forall>op\<in>set ops. preserves_key k op \<Longrightarrow>
   holds_value c v k (fold apply_op ops s)"
  by (induction ops arbitrary: s) (simp_all add: holds_value_apply_op)

lemma holds_value_Get_result:
  assumes "holds_value c v k s" "map_of (data s) k \<noteq> None"
  shows "fst (CacheShard_Get now k s) = Inr v"
proof -
  from assms(2) obtain item where i: "map_of (data s) k = Some item" by auto
  with assms(1) have e: "ExpireAt item = None" and c: "compressor s = c"
    and val: "if Compressed item
         then (\<exists>cmp. c = Some cmp \<and> Decompress cmp (Value item) = Inr v)
         else Value item = v" by (simp_all add: holds_value_def)
  show ?thesis
  proof (cases "Compressed item")
    case True
    with val obtain cmp where "c = Some cmp" "Decompress cmp (Value item) = Inr v" by auto
    then show ?thesis using i e c True by (simp add: CacheShard_Get_def Let_def)
  next
    case False
    with val have "Value item = v" by simp
    then show ?thesis using i e c False by (simp add: CacheShard_Get_def Let_def)
  qed
qed

text \<open>
  The sequential round trip. Let the compressor of the shard, if any, decompress what it
  compressed from \<open>v\<close> back to \<open>v\<close>. \<open>Set k v 0\<close> returns no error; if neither it nor any
  of the following operations evicts \<open>k\<close>, and none of them is a \<open>Set\<close> or a \<open>Delete\<close>
  of \<open>k\<close> (a \<open>Delete\<close> started by \<open>Get\<close> included) or a \<open>Clear\<close>, then \<open>k\<close> is still
  stored and \<open>Get k\<close> returns exactly \<open>v\<close>, at whatever time it is called and whether
  or not the payload was stored compressed.
\<close>

lemma stored_apply_op:
  assumes st: "map_of (data s) k \<noteq> None" and p: "preserves_key k op" and ne: "\<not> evicts k op s"
  shows "map_of (data (apply_op op s)) k \<noteq> None"
proof (cases op)
  case (ShardSet now key val ttl)
  with p have "key \<noteq> k" by simp
  then have "map_of (data (storeItem now key val ttl s)) k \<noteq> None"
    using st by (simp add: storeItem_other)
  with ne show ?thesis by (simp add: ShardSet evicts_def CacheShard_Set_def)
next
  case (ShardGet now key)
  show ?thesis
  proof (cases "map_of (data s) key")
    case None
    with st show ?thesis by (simp add: ShardGet Get_data)
  next
    case (Some item)
    with st show ?thesis by (simp add: ShardGet Get_data AList.update_conv')
  qed
next
  case (ShardDelete key)
  with p have "key \<noteq> k" by simp
  with st show ?thesis
    by (cases "map_of (data s) key")
       (simp_all add: ShardDelete CacheShard_Delete_def AList.delete_conv')
next
  case ShardClear
  with p show ?thesis by simp
qed

lemma stored_fold:
  "holds_value c v k s \<Longrightarrow> map_of (data s) k \<noteq> None \<Longrightarrow> \<forall>op\<in>set ops. preserves_key k op \<Longrightarrow>
   never_evicts k ops s \<Longrightarrow>
   holds_value c v k (fold apply_op ops s) \<and> map_of (data (fold apply_op ops s)) k \<noteq> None"
proof (induction ops arbitrary: s)
  case Nil
  then show ?case by simp
next
  case (Cons op ops)
  from Cons.prems have p: "preserves_key k op" and ne: "\<not> evicts k op s"
    and rest: "\<forall>op\<in>set ops. preserves_key k op" "never_evicts k ops (apply_op op s)"
    by simp_all
  have "holds_value c v k (apply_op op s)" by (rule holds_value_apply_op[OF Cons.prems(1) p])
  moreover have "map_of (data (apply_op op s)) k \<noteq> None"
    by (rule stored_apply_op[OF Cons.prems(2) p ne])
  ultimately show ?case using Cons.IH[of "apply_op op s"] rest by simp
qed

lemma round_trip_sequential:
  assumes law: "\<forall>c cd. compressor s = Some c \<longrightarrow> Compress c v = Inr cd \<longrightarrow> Decompress c cd = Inr v"
    and ops: "\<forall>op\<in>set ops. preserves_key k op"
    and first: "\<not> evicts k (ShardSet now k v 0) s"
    and rest: "never_evicts k ops (snd (CacheShard_Set now k v 0 s))"
  shows "fst (CacheShard_Set now k v 0 s) = None
     \<and> fst (CacheShard_Get now' k (run ops (snd (CacheShard_Set now k v 0 s)))) = Inr v"
proof -
  from storeItem_key_ttl0[OF law, of now k] have
    "map_of (data (storeItem now k v 0 s)) k \<noteq> None" by auto
  with first have st: "map_of (data (snd (CacheShard_Set now k v 0 s))) k \<noteq> None"
    by (simp add: evicts_def CacheShard_Set_def)
  from stored_fold[OF holds_value_Set_same[OF law] st ops rest]
  have "holds_value (compressor s) v k (run ops (snd (CacheShard_Set now k v 0 s)))"
    "map_of (data (run ops (snd (CacheShard_Set now k v 0 s)))) k \<noteq> None"
    by (simp_all add: run_def)
  from holds_value_Get_result[OF this] show ?thesis
    by (simp add: CacheShard_Set_def)
qed

text \<open>
  C1. The round trip is lost to a \<open>Delete\<close> that an earlier \<open>Get\<close> started. Key \<open>k\<close> is
  stored at time 0 with a time to live of 1. \<open>Get k\<close> at time 2 finds it expired, fails
  with \<open>ErrKeyNotFound\<close> and starts \<open>Delete k\<close>. \<open>Set k [1, 2, 3] 0\<close> at time 3 returns no
  error, and a \<open>Get k\<close> that runs before the started \<open>Delete\<close> returns \<open>[1, 2, 3]\<close>. Once the
  started \<open>Delete\<close> has run, which does not look at the expiry time again, \<open>Get k\<close> fails
  with \<open>ErrKeyNotFound\<close>, although the caller has issued no \<open>Set\<close>, \<open>Delete\<close> or \<open>Clear\<close>
  since and nothing has been evicted.
\<close>

theorem round_trip_lost_to_stale_delete:
  "fst (CacheShard_Get 2 ''k''
         (run [ShardSet 0 ''k'' [9] 1] (NewCacheShard 1024 ''LRU'' None 1024)))
     = Inl ErrKeyNotFound
   \<and> fst (snd (CacheShard_Get 2 ''k''
         (run [ShardSet 0 ''k'' [9] 1] (NewCacheShard 1024 ''LRU'' None 1024))))
     = Some ''k''
   \<and> fst (CacheShard_Set 3 ''k'' [1, 2, 3] 0
         (run [ShardSet 0 ''k'' [9] 1, ShardGet 2 ''k''] (NewCacheShard 1024 ''LRU'' None 1024)))
     = None
   \<and> fst (CacheShard_Get 4 ''k''
         (run [ShardSet 0 ''k'' [9] 1, ShardGet 2 ''k'', ShardSet 3 ''k'' [1, 2, 3] 0]
              (NewCacheShard 1024 ''LRU'' None 1024)))
     = Inr [1, 2, 3]
   \<and> fst (CacheShard_Get 4 ''k''
         (run [ShardSet 0 ''k'' [9] 1, ShardGet 2 ''k'', ShardSet 3 ''k'' [1, 2, 3] 0,
               ShardDelete ''k'']
              (NewCacheShard 1024 ''LRU'' None 1024)))
     = Inl ErrKeyNotFound
   \<and> Evictions (stats (run [ShardSet 0 ''k'' [9] 1, ShardGet 2 ''k'',
                              ShardSet 3 ''k'' [1, 2, 3] 0, ShardDelete ''k'']
              (NewCacheShard 1024 ''LRU'' None 1024))) = 0"
  by code_simp

section \<open>Invariants of the eviction lists\<close>

subsection \<open>LRU and FIFO\<close>

lemma lru_Add: "lru_wf l \<Longrightarrow> lru_wf (LRUList_Add k item l) \<and> set (lru_list (LRUList_Add k item l)) = insert k (set (lru_list l))"
  by (auto simp: lru_wf_def LRUList_Add_def)

lemma lru_Remove: "lru_wf l \<Longrightarrow> lru_wf (LRUList_Remove k l) \<and> set (lru_list (LRUList_Remove k l)) = set (lru_list l) - {k}"
  by (auto simp: lru_wf_def LRUList_Remove_def)

lemma lru_Update: "lru_wf l \<Longrightarrow> lru_wf (LRUList_Update k item l) \<and> set (lru_list (LRUList_Update k item l)) = set (lru_list l)"
  by (auto simp: lru_wf_def LRUList_Update_def)

lemma lru_RemoveLeast:
  "lru_wf l \<Longrightarrow> lru_list l \<noteq> [] \<Longrightarrow>
   fst (LRUList_RemoveLeast l) \<in> set (lru_list l) \<and> lru_wf (snd (LRUList_RemoveLeast l))
   \<and> set (lru_list (snd (LRUList_RemoveLeast l))) = set (lru_list l) - {fst (LRUList_RemoveLeast l)}"
proof -
  assume wf: "lru_wf l" and ne: "lru_list l \<noteq> []"
  then obtain xs x where xs: "lru_list l = xs @ [x]" by (metis rev_exhaust)
  with wf show ?thesis by (auto simp: lru_wf_def LRUList_RemoveLeast_def)
qed

lemma lru_RemoveLeast_empty: "lru_list l = [] \<Longrightarrow> LRUList_RemoveLeast l = ('''', l)"
  by (simp add: LRUList_RemoveLeast_def)

lemma fifo_Add: "fifo_wf l \<Longrightarrow> fifo_wf (FIFOList_Add k item l) \<and> set (fifo_list (FIFOList_Add k item l)) = insert k (set (fifo_list l))"
  by (auto simp: fifo_wf_def FIFOList_Add_def)

lemma fifo_Remove: "fifo_wf l \<Longrightarrow> fifo_wf (FIFOList_Remove k l) \<and> set (fifo_list (FIFOList_Remove k l)) = set (fifo_list l) - {k}"
  by (auto simp: fifo_wf_def FIFOList_Remove_def)

lemma fifo_RemoveLeast:
  "fifo_wf l \<Longrightarrow> fifo_list l \<noteq> [] \<Longrightarrow>
   fst (FIFOList_RemoveLeast l) \<in> set (fifo_list l) \<and> fifo_wf (snd (FIFOList_RemoveLeast l))
   \<and> set (fifo_list (snd (FIFOList_RemoveLeast l))) = set (fifo_list l) - {fst (FIFOList_RemoveLeast l)}"
  by (cases "fifo_list l") (auto simp: fifo_wf_def FIFOList_RemoveLeast_def)

lemma fifo_RemoveLeast_empty: "fifo_list l = [] \<Longrightarrow> FIFOList_RemoveLeast l = ('''', l)"
  by (simp add: FIFOList_RemoveLeast_def)

subsection \<open>LFU\<close>

lemma bucket_frequencies_update:
  "bucket (l\<lparr>frequencies := AList.update f b (frequencies l)\<rparr>) f' = (if f' = f then b else bucket l f')"
  by (simp add: bucket_def AList.update_conv')

lemma bucket_addToFrequency:
  "bucket (addToFrequency k f l) f' = (if f' = f then bucket l f @ [k] else bucket l f')"
  by (cases "map_of (frequencies l) f") (simp_all add: addToFrequency_def bucket_def AList.update_conv')

lemma bucket_removeFromFrequency:
  "bucket (removeFromFrequency k f l) f' = (if f' = f then remove1 k (bucket l f) else bucket l f')"
  by (cases "map_of (frequencies l) f")
     (simp_all add: removeFromFrequency_def bucket_def AList.update_conv')

lemma bucket_nodes_update: "bucket (l\<lparr>nodes := x\<rparr>) f = bucket l f"
  by (simp add: bucket_def)

lemma bucket_minFreq_update: "bucket (l\<lparr>minFreq := x\<rparr>) f = bucket l f"
  by (simp add: bucket_def)

lemma isEmpty_bucket: "isEmpty l f \<longleftrightarrow> bucket l f = []"
  by (simp add: isEmpty_def bucket_def split: option.splits)

lemma addToFrequency_fields:
  "nodes (addToFrequency k f l) = nodes l" "minFreq (addToFrequency k f l) = minFreq l"
  "distinct (map fst (frequencies l)) \<Longrightarrow> distinct (map fst (frequencies (addToFrequency k f l)))"
  by (simp_all add: addToFrequency_def AList.distinct_update split: option.splits)

lemma removeFromFrequency_fields:
  "nodes (removeFromFrequency k f l) = nodes l" "minFreq (removeFromFrequency k f l) = minFreq l"
  "distinct (map fst (frequencies l)) \<Longrightarrow> distinct (map fst (frequencies (removeFromFrequency k f l)))"
  by (simp_all add: removeFromFrequency_def AList.distinct_update split: option.splits)

lemma updateMinFreq_fields:
  "nodes (updateMinFreq l) = nodes l" "frequencies (updateMinFreq l) = frequencies l"
  "bucket (updateMinFreq l) f = bucket l f" "freq_of (updateMinFreq l) k = freq_of l k"
  by (simp_all add: updateMinFreq_def bucket_def freq_of_def)

lemma freq_of_fields:
  "freq_of (addToFrequency k f l) = freq_of l"
  "freq_of (removeFromFrequency k f l) = freq_of l"
  "freq_of (l\<lparr>minFreq := m\<rparr>) = freq_of l"
  "freq_of (l\<lparr>frequencies := fs\<rparr>) = freq_of l"
  by (simp_all add: freq_of_def fun_eq_iff addToFrequency_fields removeFromFrequency_fields)

lemma freq_of_nodes_update:
  "freq_of (l\<lparr>nodes := AList.update k n (nodes l)\<rparr>) = (freq_of l)(k \<mapsto> Frequency n)"
  by (simp add: freq_of_def fun_eq_iff AList.update_conv')

lemma freq_of_nodes_delete:
  "freq_of (l\<lparr>nodes := AList.delete k (nodes l)\<rparr>) = (freq_of l)(k := None)"
  by (simp add: freq_of_def fun_eq_iff AList.delete_conv')

lemma nodes_empty_iff: "nodes l = [] \<longleftrightarrow> (\<forall>k. freq_of l k = None)"
proof
  assume "nodes l = []" then show "\<forall>k. freq_of l k = None" by (simp add: freq_of_def)
next
  assume a: "\<forall>k. freq_of l k = None"
  show "nodes l = []"
  proof (cases "nodes l")
    case Nil then show ?thesis .
  next
    case (Cons p ps)
    then have "freq_of l (fst p) \<noteq> None" by (cases p) (simp add: freq_of_def)
    with a show ?thesis by simp
  qed
qed

lemma scanMinFreq_Cons:
  "scanMinFreq ((f, b) # fs) m =
     scanMinFreq fs (if length b > 0 then (if f < m \<or> m = 1 then f else m) else m)"
  by (simp add: scanMinFreq_def)

lemma scanMinFreq_props:
  assumes "\<forall>(f, b)\<in>set fs. b \<noteq> [] \<longrightarrow> 1 < f" "m0 = 1 \<or> 1 < m0"
  shows "(\<forall>(f, b)\<in>set fs. b \<noteq> [] \<longrightarrow> scanMinFreq fs m0 \<le> f)
       \<and> (m0 \<noteq> 1 \<longrightarrow> scanMinFreq fs m0 \<le> m0)
       \<and> (scanMinFreq fs m0 = m0 \<or> (\<exists>b. (scanMinFreq fs m0, b) \<in> set fs \<and> b \<noteq> []))
       \<and> (m0 = 1 \<longrightarrow> (\<exists>(f, b)\<in>set fs. b \<noteq> []) \<longrightarrow> scanMinFreq fs m0 \<noteq> 1)"
  using assms
proof (induction fs arbitrary: m0)
  case Nil
  then show ?case by (simp add: scanMinFreq_def)
next
  case (Cons p fs)
  obtain f b where p: "p = (f, b)" by (cases p)
  define m1 where "m1 = (if length b > 0 then (if f < m0 \<or> m0 = 1 then f else m0) else m0)"
  have eq: "scanMinFreq (p # fs) m0 = scanMinFreq fs m1"
    unfolding p m1_def by (rule scanMinFreq_Cons)
  have rest: "\<forall>(f, b)\<in>set fs. b \<noteq> [] \<longrightarrow> 1 < f" using Cons.prems(1) by auto
  have fb: "b \<noteq> [] \<longrightarrow> 1 < f" using Cons.prems(1) p by auto
  have m1: "m1 = 1 \<or> 1 < m1" using Cons.prems(2) fb by (auto simp: m1_def)
  note IH = Cons.IH[OF rest m1]
  define r where "r = scanMinFreq fs m1"
  have a: "\<forall>(f, b)\<in>set fs. b \<noteq> [] \<longrightarrow> r \<le> f"
    and b: "m1 \<noteq> 1 \<longrightarrow> r \<le> m1"
    and c: "r = m1 \<or> (\<exists>b. (r, b) \<in> set fs \<and> b \<noteq> [])"
    and d: "m1 = 1 \<longrightarrow> (\<exists>(f, b)\<in>set fs. b \<noteq> []) \<longrightarrow> r \<noteq> 1"
    using IH unfolding r_def by blast+
  have g1: "\<forall>(f', b')\<in>set (p # fs). b' \<noteq> [] \<longrightarrow> r \<le> f'"
    using a b fb Cons.prems(2) unfolding p m1_def by (auto split: if_splits)
  have g2: "m0 \<noteq> 1 \<longrightarrow> r \<le> m0"
    using b fb Cons.prems(2) unfolding m1_def by (auto split: if_splits)
  have g3: "r = m0 \<or> (\<exists>b'. (r, b') \<in> set (p # fs) \<and> b' \<noteq> [])"
    using c unfolding p m1_def by (auto split: if_splits)
  have g4: "m0 = 1 \<longrightarrow> (\<exists>(f', b')\<in>set (p # fs). b' \<noteq> []) \<longrightarrow> r \<noteq> 1"
    using c d fb rest unfolding p m1_def by (fastforce split: if_splits)
  show ?case unfolding eq r_def[symmetric] using g1 g2 g3 g4 by blast
qed

lemma scanMinFreq_least:
  assumes "\<forall>(f, b)\<in>set fs. b \<noteq> [] \<longrightarrow> 1 < f" "set fs' = set fs"
  shows "scanMinFreq fs' 1 = scanMinFreq fs 1"
proof -
  have fs': "\<forall>(f, b)\<in>set fs'. b \<noteq> [] \<longrightarrow> 1 < f" using assms by simp
  note P = scanMinFreq_props[OF assms(1), of 1] and P' = scanMinFreq_props[OF fs', of 1]
  show ?thesis
  proof (cases "\<exists>(f, b)\<in>set fs. b \<noteq> []")
    case True
    then have "scanMinFreq fs 1 \<noteq> 1" "scanMinFreq fs' 1 \<noteq> 1" using P P' assms(2) by auto
    then obtain b b' where "(scanMinFreq fs 1, b) \<in> set fs" "b \<noteq> []"
      "(scanMinFreq fs' 1, b') \<in> set fs" "b' \<noteq> []" using P P' assms(2) by auto
    then have "scanMinFreq fs' 1 \<le> scanMinFreq fs 1" "scanMinFreq fs 1 \<le> scanMinFreq fs' 1"
      using P P' assms(2) by auto
    then show ?thesis by simp
  next
    case False
    then have "scanMinFreq fs 1 = 1" "scanMinFreq fs' 1 = 1" using P P' assms(2) by auto
    then show ?thesis by simp
  qed
qed

lemma bucket_in_set:
  "distinct (map fst (frequencies l)) \<Longrightarrow>
   ((f, b) \<in> set (frequencies l) \<and> b \<noteq> []) \<longleftrightarrow> (bucket l f = b \<and> b \<noteq> [])"
proof -
  assume d: "distinct (map fst (frequencies l))"
  have "map_of (frequencies l) f = Some b \<longleftrightarrow> (f, b) \<in> set (frequencies l)"
    by (rule map_of_eq_Some_iff[OF d])
  then show ?thesis by (cases "map_of (frequencies l) f") (auto simp: bucket_def)
qed

lemma updateMinFreq_min:
  assumes d: "distinct (map fst (frequencies l))"
    and scan: "bucket l (minFreq l) = [] \<longrightarrow> (\<forall>f. bucket l f \<noteq> [] \<longrightarrow> 1 < f)"
    and keep: "bucket l (minFreq l) \<noteq> [] \<longrightarrow> (\<forall>f. bucket l f \<noteq> [] \<longrightarrow> minFreq l \<le> f)"
    and ne: "\<exists>f. bucket l f \<noteq> []"
  shows "bucket l (minFreq (updateMinFreq l)) \<noteq> []
       \<and> (\<forall>f. bucket l f \<noteq> [] \<longrightarrow> minFreq (updateMinFreq l) \<le> f)"
proof (cases "bucket l (minFreq l) = []")
  case False
  then have "updateMinFreq l = l" by (simp add: updateMinFreq_def isEmpty_bucket)
  with False keep show ?thesis by simp
next
  case True
  define r where "r = scanMinFreq (frequencies l) 1"
  have m: "minFreq (updateMinFreq l) = r"
    using True by (simp add: updateMinFreq_def isEmpty_bucket r_def)
  have big: "\<forall>(f, b)\<in>set (frequencies l). b \<noteq> [] \<longrightarrow> 1 < f"
  proof (clarify)
    fix f b assume "(f, b) \<in> set (frequencies l)" "b \<noteq> []"
    then have "bucket l f \<noteq> []" using bucket_in_set[OF d, of f b] by simp
    with scan True show "1 < f" by blast
  qed
  from ne obtain f0 where f0: "bucket l f0 \<noteq> []" by blast
  then have ex: "\<exists>(f, b)\<in>set (frequencies l). b \<noteq> []"
    using bucket_in_set[OF d, of f0 "bucket l f0"] by blast
  note P = scanMinFreq_props[OF big, of 1, folded r_def]
  from P ex have "r \<noteq> 1" by simp
  with P obtain b where b: "(r, b) \<in> set (frequencies l)" "b \<noteq> []" by auto
  then have "bucket l r \<noteq> []" using bucket_in_set[OF d, of r b] by simp
  moreover have "r \<le> f" if "bucket l f \<noteq> []" for f
  proof -
    from that have "(f, bucket l f) \<in> set (frequencies l)"
      using bucket_in_set[OF d, of f "bucket l f"] by simp
    with P that show ?thesis by auto
  qed
  ultimately show ?thesis unfolding m by blast
qed

lemma lfu_wfD:
  assumes "lfu_wf l"
  shows "distinct (map fst (frequencies l))"
    and "\<And>k f. freq_of l k = Some f \<Longrightarrow> 1 \<le> f \<and> k \<in> set (bucket l f)"
    and "\<And>f k. k \<in> set (bucket l f) \<Longrightarrow> freq_of l k = Some f"
    and "\<And>f. distinct (bucket l f)"
    and "nodes l \<noteq> [] \<Longrightarrow> bucket l (minFreq l) \<noteq> []"
    and "\<And>f. nodes l \<noteq> [] \<Longrightarrow> bucket l f \<noteq> [] \<Longrightarrow> minFreq l \<le> f"
  using assms unfolding lfu_wf_def by blast+

lemma bucket_nonempty_nodes:
  assumes "lfu_wf l" "bucket l f \<noteq> []"
  shows "nodes l \<noteq> []"
proof -
  from assms(2) obtain k where "k \<in> set (bucket l f)" by (cases "bucket l f") auto
  then have "freq_of l k = Some f" by (rule lfu_wfD(3)[OF assms(1)])
  then show ?thesis by (auto simp: nodes_empty_iff)
qed

lemma lfu_detach:
  assumes wf: "lfu_wf l" and k: "freq_of l k = Some f"
  shows "lfu_wf (updateMinFreq
           (l\<lparr>frequencies := AList.update f (remove1 k (bucket l f)) (frequencies l),
              nodes := AList.delete k (nodes l)\<rparr>))"
    and "freq_of (updateMinFreq
           (l\<lparr>frequencies := AList.update f (remove1 k (bucket l f)) (frequencies l),
              nodes := AList.delete k (nodes l)\<rparr>)) = (freq_of l)(k := None)"
proof -
  define l1 where "l1 = l\<lparr>frequencies := AList.update f (remove1 k (bucket l f)) (frequencies l),
              nodes := AList.delete k (nodes l)\<rparr>"
  note W = lfu_wfD[OF wf]
  have B: "bucket l1 f' = (if f' = f then remove1 k (bucket l f) else bucket l f')" for f'
    unfolding l1_def by (simp add: bucket_def AList.update_conv')
  have F: "freq_of l1 = (freq_of l)(k := None)"
    unfolding l1_def by (simp add: freq_of_def fun_eq_iff AList.delete_conv')
  have d1: "distinct (map fst (frequencies l1))"
    unfolding l1_def using W(1) by (simp add: AList.distinct_update)
  have kf: "1 \<le> f" "k \<in> set (bucket l f)" using W(2)[OF k] by simp_all
  have ne: "nodes l \<noteq> []" using k by (auto simp: nodes_empty_iff)
  have sub: "bucket l f' \<noteq> []" if "bucket l1 f' \<noteq> []" for f'
    using that by (auto simp: B split: if_splits)
  have nb: "1 \<le> f' \<and> k' \<in> set (bucket l1 f')" if "freq_of l1 k' = Some f'" for k' f'
  proof -
    from that have k': "k' \<noteq> k" "freq_of l k' = Some f'" by (auto simp: F split: if_splits)
    from W(2)[OF k'(2)] k'(1) show ?thesis by (auto simp: B)
  qed
  have bn: "freq_of l1 k' = Some f'" if "k' \<in> set (bucket l1 f')" for k' f'
  proof (cases "f' = f")
    case True
    with that have "k' \<in> set (bucket l f)" "k' \<noteq> k"
      using W(4)[of f] by (auto simp: B)
    then show ?thesis using W(3)[of k' f] True by (simp add: F)
  next
    case False
    with that have "freq_of l k' = Some f'" using W(3)[of k' f'] by (simp add: B)
    moreover from this k False have "k' \<noteq> k" by auto
    ultimately show ?thesis by (simp add: F)
  qed
  have db: "distinct (bucket l1 f')" for f' using W(4) by (simp add: B)
  have wf_min: "bucket l1 (minFreq (updateMinFreq l1)) \<noteq> []
       \<and> (\<forall>f'. bucket l1 f' \<noteq> [] \<longrightarrow> minFreq (updateMinFreq l1) \<le> f')"
    if nn: "nodes l1 \<noteq> []"
  proof (rule updateMinFreq_min[OF d1])
    have m1: "minFreq l1 = minFreq l" by (simp add: l1_def)
    show "bucket l1 (minFreq l1) = [] \<longrightarrow> (\<forall>f'. bucket l1 f' \<noteq> [] \<longrightarrow> 1 < f')"
    proof (intro impI allI)
      fix f' assume e: "bucket l1 (minFreq l1) = []" and n: "bucket l1 f' \<noteq> []"
      have "minFreq l = f" using e W(5)[OF ne] by (auto simp: B m1 split: if_splits)
      moreover have "f' \<noteq> minFreq l" using e n m1 by auto
      moreover have "minFreq l \<le> f'" using W(6)[OF ne sub[OF n]] .
      ultimately show "1 < f'" using kf(1) by simp
    qed
    show "bucket l1 (minFreq l1) \<noteq> [] \<longrightarrow> (\<forall>f'. bucket l1 f' \<noteq> [] \<longrightarrow> minFreq l1 \<le> f')"
      using W(6)[OF ne sub] by (simp add: m1)
    from nn obtain k' f' where "freq_of l1 k' = Some f'" by (auto simp: nodes_empty_iff)
    from nb[OF this] have "bucket l1 f' \<noteq> []" by (cases "bucket l1 f'") auto
    then show "\<exists>f'. bucket l1 f' \<noteq> []" by blast
  qed
  show "lfu_wf (updateMinFreq l1)"
    unfolding lfu_wf_def updateMinFreq_fields
    using d1 nb bn db wf_min by blast
  show "freq_of (updateMinFreq l1) = (freq_of l)(k := None)"
    by (simp add: fun_eq_iff updateMinFreq_fields F)
qed

lemma freq_of_None_iff: "freq_of l k = None \<longleftrightarrow> map_of (nodes l) k = None"
  by (simp add: freq_of_def)

lemma freq_of_SomeD: "map_of (nodes l) k = Some n \<Longrightarrow> freq_of l k = Some (Frequency n)"
  by (simp add: freq_of_def)

lemma removeFromFrequency_eq:
  "bucket l f \<noteq> [] \<Longrightarrow>
   removeFromFrequency k f l
     = l\<lparr>frequencies := AList.update f (remove1 k (bucket l f)) (frequencies l)\<rparr>"
  by (auto simp: removeFromFrequency_def bucket_def split: option.splits)

lemma lfu_Remove:
  assumes wf: "lfu_wf l"
  shows "lfu_wf (LFUList_Remove k l) \<and> freq_of (LFUList_Remove k l) = (freq_of l)(k := None)"
proof (cases "map_of (nodes l) k")
  case None
  then have "freq_of l k = None" by (simp add: freq_of_def)
  then have "(freq_of l)(k := None) = freq_of l" by (simp add: fun_eq_iff)
  with None wf show ?thesis by (simp add: LFUList_Remove_def)
next
  case (Some n)
  then have k: "freq_of l k = Some (Frequency n)" by (rule freq_of_SomeD)
  from lfu_wfD(2)[OF wf k] have "bucket l (Frequency n) \<noteq> []" by auto
  then have "LFUList_Remove k l = updateMinFreq
           (l\<lparr>frequencies := AList.update (Frequency n) (remove1 k (bucket l (Frequency n)))
                               (frequencies l),
              nodes := AList.delete k (nodes l)\<rparr>)"
    using Some by (simp add: LFUList_Remove_def removeFromFrequency_eq)
  with lfu_detach[OF wf k] show ?thesis by simp
qed

lemma oldest_fold:
  "\<exists>r. fold (\<lambda>key oldest.
             case oldest of
               None \<Rightarrow> Some key
             | Some old \<Rightarrow> if lastUsedOf l key < lastUsedOf l old then Some key else oldest)
          xs acc = Some r \<and> (r \<in> set xs \<or> acc = Some r)"
  if "xs \<noteq> [] \<or> acc \<noteq> None"
  using that
proof (induction xs arbitrary: acc)
  case Nil
  then show ?case by auto
next
  case (Cons x xs)
  define acc' where "acc' = (case acc of None \<Rightarrow> Some x
     | Some old \<Rightarrow> if lastUsedOf l x < lastUsedOf l old then Some x else acc)"
  have a: "acc' \<noteq> None" "acc' = Some x \<or> acc' = acc"
    by (auto simp: acc'_def split: option.splits)
  from Cons.IH[of acc'] a(1) obtain r where
    "fold (\<lambda>key oldest.
             case oldest of
               None \<Rightarrow> Some key
             | Some old \<Rightarrow> if lastUsedOf l key < lastUsedOf l old then Some key else oldest)
          xs acc' = Some r" "r \<in> set xs \<or> acc' = Some r" by blast
  with a(2) show ?case unfolding acc'_def by auto
qed

lemma oldestElement_in:
  "freqList \<noteq> [] \<Longrightarrow> \<exists>key. oldestElement l freqList = Some key \<and> key \<in> set freqList"
  using oldest_fold[of freqList None l] by (auto simp: oldestElement_def)

lemma lfu_RemoveLeast_empty: "nodes l = [] \<Longrightarrow> LFUList_RemoveLeast l = ('''', l)"
  by (simp add: LFUList_RemoveLeast_def)

lemma lfu_RemoveLeast:
  assumes wf: "lfu_wf l" and ne: "nodes l \<noteq> []"
  shows "freq_of l (fst (LFUList_RemoveLeast l)) = Some (minFreq l)
       \<and> (\<forall>k' f'. freq_of l k' = Some f' \<longrightarrow> minFreq l \<le> f')
       \<and> lfu_wf (snd (LFUList_RemoveLeast l))
       \<and> freq_of (snd (LFUList_RemoveLeast l)) = (freq_of l)(fst (LFUList_RemoveLeast l) := None)"
proof -
  note W = lfu_wfD[OF wf]
  have b: "bucket l (minFreq l) \<noteq> []" by (rule W(5)[OF ne])
  then obtain freqList where fl: "map_of (frequencies l) (minFreq l) = Some freqList"
    "freqList = bucket l (minFreq l)" "freqList \<noteq> []"
    by (auto simp: bucket_def split: option.splits)
  from oldestElement_in[OF fl(3), of l] obtain key where
    key: "oldestElement l freqList = Some key" "key \<in> set freqList" by blast
  have kf: "freq_of l key = Some (minFreq l)" using W(3)[of key "minFreq l"] key(2) fl(2) by simp
  have r: "LFUList_RemoveLeast l = (key, updateMinFreq
           (l\<lparr>frequencies := AList.update (minFreq l) (remove1 key (bucket l (minFreq l)))
                               (frequencies l),
              nodes := AList.delete key (nodes l)\<rparr>))"
    using ne fl key(1) by (simp add: LFUList_RemoveLeast_def)
  have least: "minFreq l \<le> f'" if "freq_of l k' = Some f'" for k' f'
  proof -
    from W(2)[OF that] have "bucket l f' \<noteq> []" by auto
    then show ?thesis by (rule W(6)[OF ne])
  qed
  from lfu_detach[OF wf kf] kf least show ?thesis unfolding r by simp
qed

lemma bucket_nonempty_conv: "bucket l f \<noteq> [] \<longleftrightarrow> (\<exists>k. k \<in> set (bucket l f))"
  by (cases "bucket l f") auto

lemma lfu_Add_new:
  assumes wf: "lfu_wf l" and new: "freq_of l k = None" and ac: "0 \<le> AccessCount item"
  shows "lfu_wf (LFUList_Add now k item l)
       \<and> freq_of (LFUList_Add now k item l) = (freq_of l)(k \<mapsto> max 1 (AccessCount item))"
proof -
  define fr where "fr = (if AccessCount item = 0 then 1 else AccessCount item)"
  have fr: "fr = max 1 (AccessCount item)" "1 \<le> fr" using ac by (auto simp: fr_def)
  define l2 where "l2 = addToFrequency k fr
                        (l\<lparr>nodes := AList.update k \<lparr>Frequency = fr, LastUsed = now\<rparr> (nodes l)\<rparr>)"
  define res where "res = (if fr < minFreq l2 \<or> isEmpty l2 (minFreq l2)
              then l2\<lparr>minFreq := fr\<rparr> else l2)"
  have none: "map_of (nodes l) k = None" using new by (simp add: freq_of_def)
  have r: "LFUList_Add now k item l = res"
    using none by (simp add: LFUList_Add_def Let_def res_def l2_def fr_def)
  note W = lfu_wfD[OF wf]
  have B2: "bucket l2 f' = (if f' = fr then bucket l fr @ [k] else bucket l f')" for f'
    unfolding l2_def by (simp add: bucket_addToFrequency bucket_nodes_update)
  have F2: "freq_of l2 = (freq_of l)(k \<mapsto> fr)"
    unfolding l2_def by (simp add: freq_of_fields freq_of_nodes_update)
  have m2: "minFreq l2 = minFreq l" unfolding l2_def by (simp add: addToFrequency_fields)
  have d2: "distinct (map fst (frequencies l2))"
    unfolding l2_def using W(1) by (simp add: addToFrequency_fields)
  have Br: "bucket res f' = bucket l2 f'" for f' by (simp add: res_def bucket_minFreq_update)
  have Fr: "freq_of res = freq_of l2" by (simp add: res_def freq_of_fields)
  have dr: "distinct (map fst (frequencies res))" using d2 by (simp add: res_def)
  have knb: "k \<notin> set (bucket l f')" for f' using W(3)[of k f'] new by auto
  have nb: "1 \<le> f' \<and> k' \<in> set (bucket l2 f')" if "freq_of l2 k' = Some f'" for k' f'
  proof (cases "k' = k")
    case True
    with that have "f' = fr" by (simp add: F2)
    with True fr(2) show ?thesis by (simp add: B2)
  next
    case False
    with that have "freq_of l k' = Some f'" by (simp add: F2)
    from W(2)[OF this] show ?thesis by (auto simp: B2)
  qed
  have bn: "freq_of l2 k' = Some f'" if "k' \<in> set (bucket l2 f')" for k' f'
  proof (cases "k' = k")
    case True
    with that knb have "f' = fr" by (auto simp: B2 split: if_splits)
    with True show ?thesis by (simp add: F2)
  next
    case False
    with that have "k' \<in> set (bucket l f')" by (auto simp: B2 split: if_splits)
    from W(3)[OF this] False show ?thesis by (simp add: F2)
  qed
  have db: "distinct (bucket l2 f')" for f' using W(4)[of f'] knb[of fr] by (auto simp: B2)
  have old_ne: "nodes l \<noteq> []" if "bucket l f' \<noteq> []" for f'
    using bucket_nonempty_nodes[OF wf that] .
  have mn: "bucket l2 (minFreq res) \<noteq> [] \<and> (\<forall>f'. bucket l2 f' \<noteq> [] \<longrightarrow> minFreq res \<le> f')"
  proof (cases "fr < minFreq l2 \<or> isEmpty l2 (minFreq l2)")
    case True
    then have mr: "minFreq res = fr" by (simp add: res_def)
    have "fr \<le> f'" if n: "bucket l2 f' \<noteq> []" for f'
    proof (cases "f' = fr")
      case True then show ?thesis by simp
    next
      case False
      with n have o: "bucket l f' \<noteq> []" by (simp add: B2)
      from \<open>fr < minFreq l2 \<or> isEmpty l2 (minFreq l2)\<close> show ?thesis
      proof
        assume "fr < minFreq l2"
        with W(6)[OF old_ne[OF o] o] show ?thesis by (simp add: m2)
      next
        assume "isEmpty l2 (minFreq l2)"
        then have "bucket l (minFreq l) = []"
          by (auto simp: isEmpty_bucket B2 m2 split: if_splits)
        with W(5)[OF old_ne[OF o]] show ?thesis by simp
      qed
    qed
    then show ?thesis by (simp add: mr B2)
  next
    case False
    then have mr: "minFreq res = minFreq l" by (simp add: res_def m2)
    from False have le: "minFreq l \<le> fr" and ne2: "bucket l2 (minFreq l) \<noteq> []"
      by (simp_all add: isEmpty_bucket m2)
    have "minFreq l \<le> f'" if n: "bucket l2 f' \<noteq> []" for f'
    proof (cases "f' = fr")
      case True then show ?thesis using le by simp
    next
      case False
      with n have o: "bucket l f' \<noteq> []" by (simp add: B2)
      from W(6)[OF old_ne[OF o] o] show ?thesis .
    qed
    with ne2 show ?thesis by (simp add: mr)
  qed
  have "lfu_wf res"
    unfolding lfu_wf_def Br Fr using dr nb bn db mn by blast
  then show ?thesis unfolding r by (simp add: Fr F2 fr(1))
qed

lemma lfu_Update:
  assumes wf: "lfu_wf l" and ac: "1 \<le> AccessCount item"
    and mono: "\<forall>f. freq_of l k = Some f \<longrightarrow> f \<le> AccessCount item"
  shows "lfu_wf (LFUList_Update now k item l)
       \<and> freq_of (LFUList_Update now k item l)
           = (if freq_of l k = None then freq_of l else (freq_of l)(k \<mapsto> AccessCount item))"
proof (cases "map_of (nodes l) k")
  case None
  then show ?thesis using wf by (simp add: LFUList_Update_def freq_of_def)
next
  case (Some n)
  define old where "old = Frequency n"
  define new where "new = AccessCount item"
  have k: "freq_of l k = Some old" using Some by (simp add: freq_of_def old_def)
  note W = lfu_wfD[OF wf]
  have ne: "nodes l \<noteq> []" using k by (auto simp: nodes_empty_iff)
  have kold: "1 \<le> old" "k \<in> set (bucket l old)" using W(2)[OF k] by simp_all
  show ?thesis
  proof (cases "old = new")
    case True
    define l' where "l' = l\<lparr>nodes := AList.update k (n\<lparr>LastUsed := now\<rparr>) (nodes l)\<rparr>"
    have r: "LFUList_Update now k item l = l'"
      using Some True by (simp add: LFUList_Update_def Let_def l'_def old_def new_def)
    have F: "freq_of l' = freq_of l"
      using k by (auto simp: l'_def freq_of_nodes_update fun_eq_iff old_def)
    have B: "bucket l' f' = bucket l f'" for f' by (simp add: l'_def bucket_nodes_update)
    have n': "nodes l' \<noteq> []" by (simp add: l'_def)
    have fl: "frequencies l' = frequencies l" and ml: "minFreq l' = minFreq l"
      by (simp_all add: l'_def)
    have "lfu_wf l'"
      using wf ne n' unfolding lfu_wf_def B F fl ml by blast
    then show ?thesis unfolding r using k True by (simp add: F fun_eq_iff new_def)
  next
    case False
    with mono k have lt: "old < new" by (simp add: new_def)
    define l3 where "l3 = addToFrequency k new
                     ((removeFromFrequency k old l)
                        \<lparr>nodes := AList.update k \<lparr>Frequency = new, LastUsed = now\<rparr>
                                    (nodes l)\<rparr>)"
    have r: "LFUList_Update now k item l = updateMinFreq l3"
      using Some False by (simp add: LFUList_Update_def Let_def l3_def old_def new_def)
    have B3: "bucket l3 f' = (if f' = new then bucket l new @ [k]
                else if f' = old then remove1 k (bucket l old) else bucket l f')" for f'
      unfolding l3_def using False
      by (simp add: bucket_addToFrequency bucket_nodes_update bucket_removeFromFrequency)
    have F3: "freq_of l3 = (freq_of l)(k \<mapsto> new)"
      unfolding l3_def
      by (simp add: freq_of_fields freq_of_def fun_eq_iff AList.update_conv'
            removeFromFrequency_fields)
    have m3: "minFreq l3 = minFreq l"
      unfolding l3_def by (simp add: addToFrequency_fields removeFromFrequency_fields)
    have d3: "distinct (map fst (frequencies l3))"
      unfolding l3_def addToFrequency_def removeFromFrequency_def using W(1)
      by (simp add: AList.distinct_update split: option.splits)
    have knew: "k \<notin> set (bucket l new)" using W(3)[of k new] k False by auto
    have nb: "1 \<le> f' \<and> k' \<in> set (bucket l3 f')" if "freq_of l3 k' = Some f'" for k' f'
    proof (cases "k' = k")
      case True
      with that have "f' = new" by (simp add: F3)
      with True ac show ?thesis by (simp add: B3 new_def)
    next
      case ne: False
      with that have "freq_of l k' = Some f'" by (simp add: F3)
      from W(2)[OF this] ne show ?thesis by (auto simp: B3)
    qed
    have bn: "freq_of l3 k' = Some f'" if "k' \<in> set (bucket l3 f')" for k' f'
    proof (cases "k' = k")
      case True
      have "f' = new"
      proof (rule ccontr)
        assume nn: "f' \<noteq> new"
        show False
        proof (cases "f' = old")
          case True
          with that nn \<open>k' = k\<close> W(4)[of old] show False by (simp add: B3)
        next
          case no: False
          with that nn \<open>k' = k\<close> have "k \<in> set (bucket l f')" by (simp add: B3)
          from W(3)[OF this] k no show False by simp
        qed
      qed
      with True show ?thesis by (simp add: F3)
    next
      case nk: False
      have "k' \<in> set (bucket l f')"
        using that nk by (auto simp: B3 split: if_splits dest: notin_set_remove1)
      from W(3)[OF this] nk show ?thesis by (simp add: F3)
    qed
    have db: "distinct (bucket l3 f')" for f'
      using W(4)[of f'] W(4)[of new] W(4)[of old] knew by (auto simp: B3)
    have sub: "bucket l f' \<noteq> []" if "bucket l3 f' \<noteq> []" "f' \<noteq> new" for f'
      using that by (auto simp: B3 split: if_splits)
    have mn: "bucket l3 (minFreq (updateMinFreq l3)) \<noteq> []
       \<and> (\<forall>f'. bucket l3 f' \<noteq> [] \<longrightarrow> minFreq (updateMinFreq l3) \<le> f')"
    proof (rule updateMinFreq_min[OF d3])
      show "bucket l3 (minFreq l3) = [] \<longrightarrow> (\<forall>f'. bucket l3 f' \<noteq> [] \<longrightarrow> 1 < f')"
      proof (intro impI allI)
        fix f' assume e: "bucket l3 (minFreq l3) = []" and n: "bucket l3 f' \<noteq> []"
        have mo: "minFreq l = old"
          using e W(5)[OF ne] by (auto simp: B3 m3 split: if_splits)
        show "1 < f'"
        proof (cases "f' = new")
          case True then show ?thesis using lt kold(1) by simp
        next
          case fn: False
          have "f' \<noteq> old" using e n mo m3 by auto
          moreover have "minFreq l \<le> f'" using W(6)[OF ne sub[OF n fn]] .
          ultimately show ?thesis using mo kold(1) by simp
        qed
      qed
      show "bucket l3 (minFreq l3) \<noteq> [] \<longrightarrow> (\<forall>f'. bucket l3 f' \<noteq> [] \<longrightarrow> minFreq l3 \<le> f')"
      proof (intro impI allI)
        fix f' assume n: "bucket l3 f' \<noteq> []"
        have "bucket l old \<noteq> []" using kold(2) by (cases "bucket l old") auto
        then have o: "minFreq l \<le> old" by (rule W(6)[OF ne])
        show "minFreq l3 \<le> f'"
        proof (cases "f' = new")
          case True then show ?thesis using o lt by (simp add: m3)
        next
          case fn: False
          from W(6)[OF ne sub[OF n fn]] show ?thesis by (simp add: m3)
        qed
      qed
      show "\<exists>f'. bucket l3 f' \<noteq> []" by (rule exI[of _ new]) (simp add: B3)
    qed
    have "lfu_wf (updateMinFreq l3)"
      unfolding lfu_wf_def updateMinFreq_fields using d3 nb bn db mn by blast
    then show ?thesis unfolding r using k
      by (simp add: updateMinFreq_fields fun_eq_iff F3 new_def)
  qed
qed

subsection \<open>The interface\<close>

lemma lfu_keys_freq: "fst ` set (nodes l) = {k. freq_of l k \<noteq> None}"
  by (auto simp: freq_of_def map_of_eq_None_iff)

lemma is_LFU_ops:
  "is_LFU (EvictionList_Add now k item el) = is_LFU el"
  "is_LFU (EvictionList_Remove k el) = is_LFU el"
  "is_LFU (EvictionList_Update now k item el) = is_LFU el"
  "is_LFU (snd (EvictionList_RemoveLeast el)) = is_LFU el"
  "is_LFU (EvictionList_Clear el) = is_LFU el"
  by (simp_all add: is_LFU_def EvictionList_Add_def EvictionList_Remove_def
        EvictionList_Update_def EvictionList_RemoveLeast_def EvictionList_Clear_def
        split: EvictionList.splits)

lemma el_Add:
  assumes "el_wf el" "k \<notin> el_keys el" "0 \<le> AccessCount item"
  shows "el_wf (EvictionList_Add now k item el)
       \<and> el_keys (EvictionList_Add now k item el) = insert k (el_keys el)
       \<and> (is_LFU el \<longrightarrow>
            el_freq (EvictionList_Add now k item el) = (el_freq el)(k \<mapsto> max 1 (AccessCount item)))"
proof (cases el)
  case (LRU l)
  with assms lru_Add[of l k item] show ?thesis
    by (simp add: el_wf_def el_keys_def EvictionList_Add_def is_LFU_def)
next
  case (FIFO l)
  with assms fifo_Add[of l k item] show ?thesis
    by (simp add: el_wf_def el_keys_def EvictionList_Add_def is_LFU_def)
next
  case (LFU l)
  with assms have wf: "lfu_wf l" and new: "freq_of l k = None"
    by (auto simp: el_wf_def el_keys_def lfu_keys_freq)
  from lfu_Add_new[OF wf new assms(3), of now] LFU show ?thesis
    by (auto simp: el_wf_def el_keys_def EvictionList_Add_def el_freq_def lfu_keys_freq
          fun_eq_iff)
qed

lemma el_Remove:
  assumes "el_wf el"
  shows "el_wf (EvictionList_Remove k el)
       \<and> el_keys (EvictionList_Remove k el) = el_keys el - {k}
       \<and> (is_LFU el \<longrightarrow> el_freq (EvictionList_Remove k el) = (el_freq el)(k := None))"
proof (cases el)
  case (LRU l)
  with assms lru_Remove[of l k] show ?thesis
    by (simp add: el_wf_def el_keys_def EvictionList_Remove_def is_LFU_def)
next
  case (FIFO l)
  with assms fifo_Remove[of l k] show ?thesis
    by (simp add: el_wf_def el_keys_def EvictionList_Remove_def is_LFU_def)
next
  case (LFU l)
  with assms have wf: "lfu_wf l" by (simp add: el_wf_def)
  from lfu_Remove[OF wf, of k] LFU show ?thesis
    by (auto simp: el_wf_def el_keys_def EvictionList_Remove_def el_freq_def lfu_keys_freq
          fun_eq_iff)
qed

lemma el_Update:
  assumes "el_wf el" "1 \<le> AccessCount item"
    "\<forall>f. el_freq el k = Some f \<longrightarrow> f \<le> AccessCount item"
  shows "el_wf (EvictionList_Update now k item el)
       \<and> el_keys (EvictionList_Update now k item el) = el_keys el
       \<and> (is_LFU el \<longrightarrow> el_freq (EvictionList_Update now k item el)
             = (if k \<in> el_keys el then (el_freq el)(k \<mapsto> AccessCount item) else el_freq el))"
proof (cases el)
  case (LRU l)
  with assms lru_Update[of l k item] show ?thesis
    by (simp add: el_wf_def el_keys_def EvictionList_Update_def is_LFU_def)
next
  case (FIFO l)
  with assms show ?thesis
    by (simp add: el_wf_def el_keys_def EvictionList_Update_def is_LFU_def FIFOList_Update_def)
next
  case (LFU l)
  with assms have wf: "lfu_wf l" and mono: "\<forall>f. freq_of l k = Some f \<longrightarrow> f \<le> AccessCount item"
    by (simp_all add: el_wf_def el_freq_def)
  from lfu_Update[OF wf assms(2) mono, of now] LFU show ?thesis
    by (auto simp: el_wf_def el_keys_def EvictionList_Update_def el_freq_def lfu_keys_freq
          fun_eq_iff)
qed

lemma el_RemoveLeast:
  assumes "el_wf el" "el_keys el \<noteq> {}"
  shows "fst (EvictionList_RemoveLeast el) \<in> el_keys el
       \<and> el_wf (snd (EvictionList_RemoveLeast el))
       \<and> el_keys (snd (EvictionList_RemoveLeast el))
           = el_keys el - {fst (EvictionList_RemoveLeast el)}
       \<and> (is_LFU el \<longrightarrow>
            el_freq (snd (EvictionList_RemoveLeast el))
              = (el_freq el)(fst (EvictionList_RemoveLeast el) := None)
            \<and> (\<forall>k' f'. el_freq el k' = Some f' \<longrightarrow>
                  (\<exists>f. el_freq el (fst (EvictionList_RemoveLeast el)) = Some f \<and> f \<le> f')))"
proof (cases el)
  case (LRU l)
  with assms lru_RemoveLeast[of l] show ?thesis
    by (simp add: el_wf_def el_keys_def EvictionList_RemoveLeast_def is_LFU_def)
next
  case (FIFO l)
  with assms fifo_RemoveLeast[of l] show ?thesis
    by (simp add: el_wf_def el_keys_def EvictionList_RemoveLeast_def is_LFU_def)
next
  case (LFU l)
  with assms have wf: "lfu_wf l" and ne: "nodes l \<noteq> []"
    by (auto simp: el_wf_def el_keys_def)
  from lfu_RemoveLeast[OF wf ne] LFU show ?thesis
    by (auto simp: el_wf_def el_keys_def EvictionList_RemoveLeast_def el_freq_def lfu_keys_freq
          fun_eq_iff)
qed

lemma el_RemoveLeast_empty:
  "el_keys el = {} \<Longrightarrow> EvictionList_RemoveLeast el = ('''', el)"
  by (cases el)
     (simp_all add: el_keys_def EvictionList_RemoveLeast_def lru_RemoveLeast_empty
        fifo_RemoveLeast_empty lfu_RemoveLeast_empty)

lemma el_Clear:
  "el_wf (EvictionList_Clear el) \<and> el_keys (EvictionList_Clear el) = {}"
  by (cases el)
     (simp_all add: el_wf_def el_keys_def EvictionList_Clear_def LRUList_Clear_def
        FIFOList_Clear_def LFUList_Clear_def lru_wf_def fifo_wf_def lfu_wf_def bucket_def
        freq_of_def)

section \<open>The invariant of a shard\<close>

lemma keys_update: "fst ` set (AList.update k v al) = insert k (fst ` set al)"
  by (simp add: AList.dom_update)

lemma keys_delete: "fst ` set (AList.delete k al) = fst ` set al - {k}"
  by (induction al) auto

lemma keys_map_of: "k \<in> fst ` set al \<longleftrightarrow> map_of al k \<noteq> None"
  by (simp add: map_of_eq_None_iff)

lemma el_freq_not_key:
  assumes "k \<notin> el_keys el"
  shows "el_freq el k = None"
  using assms by (cases el) (auto simp: el_freq_def el_keys_def lfu_keys_freq)

lemma el_freq_is_LFU: "el_freq el k = Some f \<Longrightarrow> is_LFU el"
  by (cases el) (simp_all add: el_freq_def is_LFU_def)

lemma shard_invD:
  assumes "shard_inv s"
  shows "accounting s" "el_wf (evictionList s)" "el_keys (evictionList s) = fst ` set (data s)"
    "[] \<notin> fst ` set (data s)"
    "\<And>k item. map_of (data s) k = Some item \<Longrightarrow> 0 \<le> AccessCount item \<and> 0 \<le> Size item"
    "\<And>k item. is_LFU (evictionList s) \<Longrightarrow> map_of (data s) k = Some item \<Longrightarrow>
        el_freq (evictionList s) k = Some (max 1 (AccessCount item))"
  using assms unfolding shard_inv_def lfu_agrees_def by blast+

lemma shard_invI:
  assumes "accounting s" "el_wf (evictionList s)" "el_keys (evictionList s) = fst ` set (data s)"
    "[] \<notin> fst ` set (data s)"
    "\<And>k item. map_of (data s) k = Some item \<Longrightarrow> 0 \<le> AccessCount item \<and> 0 \<le> Size item"
    "\<And>k item. is_LFU (evictionList s) \<Longrightarrow> map_of (data s) k = Some item \<Longrightarrow>
        el_freq (evictionList s) k = Some (max 1 (AccessCount item))"
  shows "shard_inv s"
  using assms unfolding shard_inv_def lfu_agrees_def by blast

lemma storeItem_shape:
  "\<exists>item. data (storeItem now key val ttl s) = AList.update key item (data s)
     \<and> AccessCount item = (case map_of (data s) key of Some old \<Rightarrow> AccessCount old | None \<Rightarrow> 0)
     \<and> 0 \<le> Size item
     \<and> evictionList (storeItem now key val ttl s) =
          EvictionList_Add now key item
            (case map_of (data s) key of
               Some old \<Rightarrow> EvictionList_Remove key (evictionList s)
             | None \<Rightarrow> evictionList s)"
proof (cases "map_of (data s) key")
  case None
  show ?thesis
    by (rule exI[of _ "\<lparr>Key = key,
          Value = (case compressedData s val of Some cd \<Rightarrow> cd | None \<Rightarrow> val),
          Size = int (length (case compressedData s val of Some cd \<Rightarrow> cd | None \<Rightarrow> val)),
          ExpireAt = (if ttl > 0 then Some (now + ttl) else None),
          CreatedAt = now, AccessAt = now, AccessCount = 0,
          Compressed = (compressedData s val \<noteq> None)\<rparr>"])
       (simp add: storeItem_def Let_def None)
next
  case (Some old)
  show ?thesis
    by (rule exI[of _ "overwritten now val ttl s old"])
       (simp add: storeItem_def Let_def Some overwritten_def)
qed

lemma shard_inv_storeItem:
  assumes inv: "shard_inv s" and key: "key \<noteq> []"
  shows "shard_inv (storeItem now key val ttl s)"
proof -
  note I = shard_invD[OF inv]
  define el1 where "el1 = (case map_of (data s) key of
               Some old \<Rightarrow> EvictionList_Remove key (evictionList s)
             | None \<Rightarrow> evictionList s)"
  from storeItem_shape[of now key val ttl s] obtain item where
    d: "data (storeItem now key val ttl s) = AList.update key item (data s)"
    and ac: "AccessCount item = (case map_of (data s) key of Some old \<Rightarrow> AccessCount old | None \<Rightarrow> 0)"
    and sz: "0 \<le> Size item"
    and el: "evictionList (storeItem now key val ttl s) = EvictionList_Add now key item el1"
    unfolding el1_def by blast
  have ac0: "0 \<le> AccessCount item"
    using ac I(5)[of key] by (cases "map_of (data s) key") simp_all
  have el1: "el_wf el1" "el_keys el1 = el_keys (evictionList s) - {key}"
    "is_LFU el1 = is_LFU (evictionList s)"
    "is_LFU (evictionList s) \<Longrightarrow> el_freq el1 = (el_freq (evictionList s))(key := None)"
  proof -
    show "el_wf el1" "el_keys el1 = el_keys (evictionList s) - {key}"
      "is_LFU el1 = is_LFU (evictionList s)"
      using el_Remove[OF I(2), of key] I(2,3)
      by (cases "map_of (data s) key"; simp add: el1_def is_LFU_ops keys_map_of)+
    assume l: "is_LFU (evictionList s)"
    show "el_freq el1 = (el_freq (evictionList s))(key := None)"
    proof (cases "map_of (data s) key")
      case None
      then have "key \<notin> el_keys (evictionList s)" by (simp add: I(3) keys_map_of)
      from el_freq_not_key[OF this] None show ?thesis by (simp add: el1_def fun_eq_iff)
    next
      case (Some old)
      with el_Remove[OF I(2), of key] l show ?thesis by (simp add: el1_def)
    qed
  qed
  have notin: "key \<notin> el_keys el1" by (simp add: el1(2))
  note A = el_Add[OF el1(1) notin ac0, of now]
  show ?thesis
  proof (rule shard_invI)
    show "accounting (storeItem now key val ttl s)" by (rule accounting_storeItem[OF I(1)])
    show "el_wf (evictionList (storeItem now key val ttl s))" using A by (simp add: el)
    show "el_keys (evictionList (storeItem now key val ttl s))
            = fst ` set (data (storeItem now key val ttl s))"
      using A by (auto simp: el d keys_update el1(2) I(3))
    show "[] \<notin> fst ` set (data (storeItem now key val ttl s))"
      using I(4) key by (simp add: d keys_update)
  next
    fix k it assume m: "map_of (data (storeItem now key val ttl s)) k = Some it"
    show "0 \<le> AccessCount it \<and> 0 \<le> Size it"
    proof (cases "k = key")
      case True
      with m have "it = item" by (simp add: d AList.update_conv')
      with ac0 sz show ?thesis by simp
    next
      case False
      with m have "map_of (data s) k = Some it" by (simp add: d AList.update_conv')
      then show ?thesis by (rule I(5))
    qed
  next
    fix k it
    assume l: "is_LFU (evictionList (storeItem now key val ttl s))"
      and m: "map_of (data (storeItem now key val ttl s)) k = Some it"
    from l have l0: "is_LFU (evictionList s)" by (simp add: el is_LFU_ops el1(3))
    then have l1: "is_LFU el1" by (simp add: el1(3))
    have fr: "el_freq (evictionList (storeItem now key val ttl s))
            = ((el_freq (evictionList s))(key := None))(key \<mapsto> max 1 (AccessCount item))"
      using A l1 el1(4)[OF l0] by (simp add: el)
    show "el_freq (evictionList (storeItem now key val ttl s)) k = Some (max 1 (AccessCount it))"
    proof (cases "k = key")
      case True
      with m have "it = item" by (simp add: d AList.update_conv')
      with True show ?thesis by (simp add: fr)
    next
      case False
      with m have "map_of (data s) k = Some it" by (simp add: d AList.update_conv')
      from I(6)[OF l0 this] False show ?thesis by (simp add: fr)
    qed
  qed
qed

lemma data_empty_keys: "data s = [] \<longleftrightarrow> fst ` set (data s) = {}"
  by simp

lemma evictOne_empty:
  assumes inv: "shard_inv s" and e: "data s = []"
  shows "evictOne s = (False, s)"
proof -
  have "el_keys (evictionList s) = {}" using shard_invD(3)[OF inv] e by simp
  then have "EvictionList_RemoveLeast (evictionList s) = ([], evictionList s)"
    by (rule el_RemoveLeast_empty)
  then show ?thesis by (simp add: evictOne_def)
qed

lemma evictOne_nonempty:
  assumes inv: "shard_inv s" and ne: "data s \<noteq> []"
  shows "\<exists>k item. map_of (data s) k = Some item \<and> fst (evictOne s)
          \<and> data (snd (evictOne s)) = AList.delete k (data s)
          \<and> currentSize (snd (evictOne s)) = currentSize s - Size item
          \<and> shard_inv (snd (evictOne s))
          \<and> (is_LFU (evictionList s) \<longrightarrow>
               (\<forall>k' item'. map_of (data s) k' = Some item' \<longrightarrow>
                  max 1 (AccessCount item) \<le> max 1 (AccessCount item')))
          \<and> k = fst (EvictionList_RemoveLeast (evictionList s))
          \<and> evictionList (snd (evictOne s)) = snd (EvictionList_RemoveLeast (evictionList s))"
proof -
  note I = shard_invD[OF inv]
  define r where "r = EvictionList_RemoveLeast (evictionList s)"
  define k where "k = fst r"
  have kne: "el_keys (evictionList s) \<noteq> {}" using I(3) ne by simp
  note R = el_RemoveLeast[OF I(2) kne, folded r_def, folded k_def]
  from R have kin: "k \<in> fst ` set (data s)" by (simp add: I(3))
  then obtain item where item: "map_of (data s) k = Some item" by (auto simp: keys_map_of)
  have k0: "k \<noteq> []" using kin I(4) by metis
  define s' where "s' = s\<lparr>evictionList := snd r,
                       data := AList.delete k (data s),
                       currentSize := currentSize s - Size item,
                       currentCount := currentCount s - 1,
                       stats := (stats s)\<lparr>Evictions := Evictions (stats s) + 1\<rparr>\<rparr>"
  have ev: "evictOne s = (True, s')"
    using item k0 by (simp add: evictOne_def Let_def r_def[symmetric] k_def[symmetric] s'_def)
  have el': "evictionList s' = snd r" and d': "data s' = AList.delete k (data s)"
    by (simp_all add: s'_def)
  have inv': "shard_inv s'"
  proof (rule shard_invI)
    show "accounting s'" using accounting_evictOne[OF I(1)] by (simp add: ev)
    show "el_wf (evictionList s')" using R by (simp add: el')
    show "el_keys (evictionList s') = fst ` set (data s')"
      using R by (simp add: el' d' keys_delete I(3))
    show "[] \<notin> fst ` set (data s')" using I(4) by (simp add: d' keys_delete)
  next
    fix k' it assume m: "map_of (data s') k' = Some it"
    then have "map_of (data s) k' = Some it"
      by (simp add: d' AList.delete_conv' split: if_splits)
    then show "0 \<le> AccessCount it \<and> 0 \<le> Size it" by (rule I(5))
  next
    fix k' it assume l: "is_LFU (evictionList s')" and m: "map_of (data s') k' = Some it"
    from l have l0: "is_LFU (evictionList s)" by (simp add: el' r_def is_LFU_ops)
    from m have m0: "map_of (data s) k' = Some it" "k' \<noteq> k"
      by (auto simp: d' AList.delete_conv' split: if_splits)
    from R l0 have "el_freq (snd r) = (el_freq (evictionList s))(k := None)" by simp
    with I(6)[OF l0 m0(1)] m0(2)
    show "el_freq (evictionList s') k' = Some (max 1 (AccessCount it))" by (simp add: el')
  qed
  have least: "max 1 (AccessCount item) \<le> max 1 (AccessCount item')"
    if l: "is_LFU (evictionList s)" and m: "map_of (data s) k' = Some item'" for k' item'
  proof -
    from R l I(6)[OF l m] obtain f where
      "el_freq (evictionList s) k = Some f" "f \<le> max 1 (AccessCount item')" by blast
    with I(6)[OF l item] show ?thesis by simp
  qed
  show ?thesis
    apply (rule exI[of _ k], rule exI[of _ item])
    using item inv' least by (simp add: ev s'_def k_def r_def)
qed

lemma shard_inv_evictOne: "shard_inv s \<Longrightarrow> shard_inv (snd (evictOne s))"
  using evictOne_empty[of s] evictOne_nonempty[of s] by (cases "data s = []") auto

lemma shard_inv_evictIfNeeded: "shard_inv s \<Longrightarrow> shard_inv (evictIfNeeded n s)"
proof -
  have "shard_inv s \<longrightarrow> shard_inv (evictIfNeeded n s)"
    by (rule evictIfNeeded_rel) (simp_all add: shard_inv_evictOne)
  then show "shard_inv s \<Longrightarrow> shard_inv (evictIfNeeded n s)" by simp
qed

lemma evictIfNeeded_within:
  "shard_inv s \<Longrightarrow> 0 < maxSize s \<Longrightarrow> currentSize (evictIfNeeded 0 s) \<le> maxSize s"
proof (induction "0::int" s rule: evictIfNeeded.induct)
  case (1 s)
  show ?case
  proof (cases "maxSize s > 0 \<and> currentSize s + 0 > maxSize s")
    case False
    with "1.prems" show ?thesis by (simp add: evictIfNeeded_idle[OF False])
  next
    case True
    show ?thesis
    proof (cases "fst (evictOne s)")
      case False
      then have "data s = []" using evictOne_nonempty[OF "1.prems"(1)] by blast
      with "1.prems" have "currentSize s = 0" "evictOne s = (False, s)"
        using shard_invD(1)[OF "1.prems"(1)] evictOne_empty[OF "1.prems"(1)]
        by (simp_all add: accounting_def)
      with "1.prems"(2) show ?thesis by (simp add: evictIfNeeded_stop[OF True False])
    next
      case e: True
      have "currentSize (evictIfNeeded 0 (snd (evictOne s))) \<le> maxSize (snd (evictOne s))"
        using "1.hyps"[OF True e] shard_inv_evictOne[OF "1.prems"(1)] "1.prems"(2)
        by (simp add: evictOne_fields)
      then show ?thesis by (simp add: evictIfNeeded_more[OF True e] evictOne_fields)
    qed
  qed
qed

lemma Get_evictionList:
  "evictionList (snd (snd (CacheShard_Get now key s))) =
     (case map_of (data s) key of
        None \<Rightarrow> evictionList s
      | Some item \<Rightarrow>
          if ExpireAt item \<noteq> None \<and> now > the (ExpireAt item) then evictionList s
          else EvictionList_Update now key
                 (item\<lparr>AccessAt := now, AccessCount := AccessCount item + 1\<rparr>) (evictionList s))"
  by (simp add: CacheShard_Get_def Let_def split: option.splits)

lemma shard_inv_stats: "shard_inv (s\<lparr>stats := x\<rparr>) = shard_inv s"
  by (simp add: shard_inv_def accounting_def)

lemma shard_inv_Get:
  assumes inv: "shard_inv s"
  shows "shard_inv (snd (snd (CacheShard_Get now key s)))"
proof (cases "map_of (data s) key")
  case None
  then show ?thesis using inv by (simp add: CacheShard_Get_def shard_inv_stats)
next
  case (Some item)
  show ?thesis
  proof (cases "ExpireAt item \<noteq> None \<and> now > the (ExpireAt item)")
    case True
    then show ?thesis using inv Some by (simp add: CacheShard_Get_def shard_inv_stats)
  next
    case False
    note I = shard_invD[OF inv]
    define item' where "item' = item\<lparr>AccessAt := now, AccessCount := AccessCount item + 1\<rparr>"
    define t where "t = snd (snd (CacheShard_Get now key s))"
    have d: "data t = AList.update key item' (data s)"
      using Some False by (auto simp: t_def Get_data item'_def)
    have el: "evictionList t = EvictionList_Update now key item' (evictionList s)"
      using Some False by (auto simp: t_def Get_evictionList item'_def)
    have ac: "0 \<le> AccessCount item" "0 \<le> Size item" using I(5)[OF Some] by simp_all
    have ac1: "1 \<le> AccessCount item'" using ac by (simp add: item'_def)
    have mono: "\<forall>f. el_freq (evictionList s) key = Some f \<longrightarrow> f \<le> AccessCount item'"
    proof (intro allI impI)
      fix f assume f: "el_freq (evictionList s) key = Some f"
      from I(6)[OF el_freq_is_LFU[OF f] Some] f ac show "f \<le> AccessCount item'"
        by (simp add: item'_def)
    qed
    note U = el_Update[OF I(2) ac1 mono, of now]
    have kin: "key \<in> fst ` set (data s)" using Some by (simp add: keys_map_of)
    show ?thesis unfolding t_def[symmetric]
    proof (rule shard_invI)
      show "accounting t" unfolding t_def by (rule accounting_Get[OF I(1)])
      show "el_wf (evictionList t)" using U by (simp add: el)
      show "el_keys (evictionList t) = fst ` set (data t)"
        using U kin by (auto simp: el d keys_update I(3))
      show "[] \<notin> fst ` set (data t)" using I(4) kin by (auto simp: d keys_update)
    next
      fix k it assume m: "map_of (data t) k = Some it"
      show "0 \<le> AccessCount it \<and> 0 \<le> Size it"
      proof (cases "k = key")
        case True
        with m have "it = item'" by (simp add: d AList.update_conv')
        with ac show ?thesis by (simp add: item'_def)
      next
        case False
        with m have "map_of (data s) k = Some it" by (simp add: d AList.update_conv')
        then show ?thesis by (rule I(5))
      qed
    next
      fix k it assume l: "is_LFU (evictionList t)" and m: "map_of (data t) k = Some it"
      from l have l0: "is_LFU (evictionList s)" by (simp add: el is_LFU_ops)
      have fr: "el_freq (evictionList t) = (el_freq (evictionList s))(key \<mapsto> AccessCount item')"
        using U l0 kin by (simp add: el I(3))
      show "el_freq (evictionList t) k = Some (max 1 (AccessCount it))"
      proof (cases "k = key")
        case True
        with m have "it = item'" by (simp add: d AList.update_conv')
        with True ac1 show ?thesis by (simp add: fr)
      next
        case False
        with m have "map_of (data s) k = Some it" by (simp add: d AList.update_conv')
        from I(6)[OF l0 this] False show ?thesis by (simp add: fr)
      qed
    qed
  qed
qed

lemma shard_inv_Delete:
  assumes inv: "shard_inv s"
  shows "shard_inv (CacheShard_Delete key s)"
proof (cases "map_of (data s) key")
  case None
  then show ?thesis using inv by (simp add: CacheShard_Delete_def)
next
  case (Some item)
  note I = shard_invD[OF inv]
  define t where "t = CacheShard_Delete key s"
  have d: "data t = AList.delete key (data s)"
    and el: "evictionList t = EvictionList_Remove key (evictionList s)"
    using Some by (simp_all add: t_def CacheShard_Delete_def)
  note R = el_Remove[OF I(2), of key]
  show ?thesis unfolding t_def[symmetric]
  proof (rule shard_invI)
    show "accounting t" unfolding t_def by (rule accounting_Delete[OF I(1)])
    show "el_wf (evictionList t)" using R by (simp add: el)
    show "el_keys (evictionList t) = fst ` set (data t)"
      using R by (simp add: el d keys_delete I(3))
    show "[] \<notin> fst ` set (data t)" using I(4) by (simp add: d keys_delete)
  next
    fix k it assume m: "map_of (data t) k = Some it"
    then have "map_of (data s) k = Some it"
      by (simp add: d AList.delete_conv' split: if_splits)
    then show "0 \<le> AccessCount it \<and> 0 \<le> Size it" by (rule I(5))
  next
    fix k it assume l: "is_LFU (evictionList t)" and m: "map_of (data t) k = Some it"
    from l have l0: "is_LFU (evictionList s)" by (simp add: el is_LFU_ops)
    from m have m0: "map_of (data s) k = Some it" "k \<noteq> key"
      by (auto simp: d AList.delete_conv' split: if_splits)
    from R l0 have "el_freq (evictionList t) = (el_freq (evictionList s))(key := None)"
      by (simp add: el)
    with I(6)[OF l0 m0(1)] m0(2)
    show "el_freq (evictionList t) k = Some (max 1 (AccessCount it))" by simp
  qed
qed

lemma shard_inv_Clear: "shard_inv (CacheShard_Clear s)"
  using el_Clear[of "evictionList s"]
  by (simp add: shard_inv_def accounting_Clear lfu_agrees_def) (simp add: CacheShard_Clear_def)

lemma shard_inv_New: "shard_inv (NewCacheShard m p c cs)"
  by (simp add: shard_inv_def accounting_New lfu_agrees_def)
     (simp add: NewCacheShard_def el_wf_def el_keys_def NewLRUList_def NewLFUList_def
        NewFIFOList_def lru_wf_def fifo_wf_def lfu_wf_def bucket_def freq_of_def)

lemma shard_inv_Set:
  "shard_inv s \<Longrightarrow> key \<noteq> [] \<Longrightarrow> shard_inv (snd (CacheShard_Set now key val ttl s))"
  by (simp add: CacheShard_Set_def shard_inv_evictIfNeeded shard_inv_storeItem)

lemma shard_inv_apply_op:
  "shard_inv s \<Longrightarrow> op_key op \<noteq> Some [] \<Longrightarrow> shard_inv (apply_op op s)"
  by (cases op) (simp_all add: shard_inv_Set shard_inv_Get shard_inv_Delete shard_inv_Clear)


section \<open>The memory bound\<close>

lemma Delete_fields:
  "maxSize (CacheShard_Delete key s) = maxSize s"
  "currentSize (CacheShard_Delete key s) =
     (case map_of (data s) key of None \<Rightarrow> currentSize s | Some item \<Rightarrow> currentSize s - Size item)"
  by (simp_all add: CacheShard_Delete_def split: option.splits)

lemma Set_maxSize: "maxSize (snd (CacheShard_Set now key val ttl s)) = maxSize s"
  by (simp add: CacheShard_Set_def evictIfNeeded_fields storeItem_fields)

lemma apply_op_maxSize: "maxSize (apply_op op s) = maxSize s"
  by (cases op) (simp_all add: Set_maxSize Get_fields Delete_fields CacheShard_Clear_def)

lemma fold_maxSize: "maxSize (fold apply_op ops s) = maxSize s"
  by (induction ops arbitrary: s) (simp_all add: apply_op_maxSize)

lemma within_budget_Set:
  assumes "shard_inv s" "key \<noteq> []"
  shows "within_budget (snd (CacheShard_Set now key val ttl s))"
proof -
  have "shard_inv (storeItem now key val ttl s)" by (rule shard_inv_storeItem[OF assms])
  from evictIfNeeded_within[OF this] show ?thesis
    by (simp add: within_budget_def CacheShard_Set_def evictIfNeeded_fields storeItem_fields)
qed

lemma within_budget_Delete:
  assumes "shard_inv s" "within_budget s"
  shows "within_budget (CacheShard_Delete key s)"
proof (cases "map_of (data s) key")
  case None
  with assms(2) show ?thesis by (simp add: within_budget_def Delete_fields)
next
  case (Some item)
  from shard_invD(5)[OF assms(1) Some] have "0 \<le> Size item" by simp
  with assms(2) Some show ?thesis by (auto simp: within_budget_def Delete_fields)
qed

lemma within_budget_apply_op:
  assumes "shard_inv s" "within_budget s" "op_key op \<noteq> Some []"
  shows "within_budget (apply_op op s)"
proof (cases op)
  case (ShardSet now key val ttl)
  with assms show ?thesis by (simp add: within_budget_Set)
next
  case (ShardGet now key)
  with assms(2) show ?thesis by (simp add: within_budget_def Get_fields)
next
  case (ShardDelete key)
  with assms show ?thesis by (simp add: within_budget_Delete)
next
  case ShardClear
  then show ?thesis by (simp add: within_budget_def CacheShard_Clear_def)
qed

lemma within_budget_fold:
  "shard_inv s \<Longrightarrow> within_budget s \<Longrightarrow> \<forall>op\<in>set ops. op_key op \<noteq> Some [] \<Longrightarrow>
   within_budget (fold apply_op ops s)"
proof (induction ops arbitrary: s)
  case Nil
  then show ?case by simp
next
  case (Cons op ops)
  have "shard_inv (apply_op op s)" "within_budget (apply_op op s)"
    using Cons.prems by (simp_all add: shard_inv_apply_op within_budget_apply_op)
  from Cons.IH[OF this] Cons.prems(3) show ?case by simp
qed

lemma shard_within_budget:
  assumes "0 < m" "\<forall>op\<in>set ops. op_key op \<noteq> Some []"
  shows "currentSize (run ops (NewCacheShard m p c cs)) \<le> m"
proof -
  have "within_budget (NewCacheShard m p c cs)"
    by (simp add: within_budget_def NewCacheShard_def)
  from within_budget_fold[OF shard_inv_New this assms(2)] assms(1) show ?thesis
    by (simp add: within_budget_def run_def fold_maxSize maxSize_NewCacheShard)
qed

lemma getShard_ok:
  assumes "cache_ok b c"
  shows "\<exists>i. getShard c key = Inr i \<and> i < length (shards c)"
proof -
  from assms have sc: "0 < shardCount c" "length (shards c) = nat (shardCount c)"
    by (simp_all add: cache_ok_def)
  have "uint (fnv1a key) mod \<bar>shardCount c\<bar> < shardCount c" using sc(1) by simp
  moreover have "0 \<le> uint (fnv1a key) mod \<bar>shardCount c\<bar>" using sc(1) by simp
  ultimately have "nat (uint (fnv1a key) mod \<bar>shardCount c\<bar>) < length (shards c)"
    using sc by linarith
  then show ?thesis using sc(1) by (simp add: getShard_def Let_def)
qed

lemma cache_ok_update:
  assumes ok: "cache_ok b c" and i: "i < length (shards c)"
    and f: "shard_inv sh' \<and> within_budget sh' \<and> maxSize sh' = b"
  shows "cache_ok b (c\<lparr>shards := (shards c)[i := sh']\<rparr>)"
proof -
  have "set ((shards c)[i := sh']) \<subseteq> insert sh' (set (shards c))"
    by (rule set_update_subset_insert)
  with ok f show ?thesis unfolding cache_ok_def by auto
qed

lemma shard_ok_apply_op:
  assumes "shard_inv sh \<and> within_budget sh \<and> maxSize sh = b" "op_key op \<noteq> Some []"
  shows "shard_inv (apply_op op sh) \<and> within_budget (apply_op op sh) \<and> maxSize (apply_op op sh) = b"
  using assms by (simp add: shard_inv_apply_op within_budget_apply_op apply_op_maxSize)

lemma cache_ok_apply:
  assumes ok: "cache_ok b c" and k: "cache_op_key op \<noteq> Some []"
  shows "cache_ok b (apply_cache_op op c)"
proof (cases op)
  case (CacheSet now key val ttl)
  from getShard_ok[OF ok, of key] obtain i where
    i: "getShard c key = Inr i" "i < length (shards c)" by blast
  from ok i(2) have sh: "shard_inv (shards c ! i) \<and> within_budget (shards c ! i)
       \<and> maxSize (shards c ! i) = b" by (simp add: cache_ok_def)
  from k CacheSet have "op_key (ShardSet now key val ttl) \<noteq> Some []" by simp
  from shard_ok_apply_op[OF sh this] cache_ok_update[OF ok i(2)] show ?thesis
    by (simp add: CacheSet Cache_Set_def i(1))
next
  case (CacheGet now key)
  from getShard_ok[OF ok, of key] obtain i where
    i: "getShard c key = Inr i" "i < length (shards c)" by blast
  from ok i(2) have sh: "shard_inv (shards c ! i) \<and> within_budget (shards c ! i)
       \<and> maxSize (shards c ! i) = b" by (simp add: cache_ok_def)
  from k CacheGet have "op_key (ShardGet now key) \<noteq> Some []" by simp
  from shard_ok_apply_op[OF sh this] cache_ok_update[OF ok i(2)] show ?thesis
    by (simp add: CacheGet Cache_Get_def i(1))
next
  case (CacheDelete key)
  from getShard_ok[OF ok, of key] obtain i where
    i: "getShard c key = Inr i" "i < length (shards c)" by blast
  from ok i(2) have sh: "shard_inv (shards c ! i) \<and> within_budget (shards c ! i)
       \<and> maxSize (shards c ! i) = b" by (simp add: cache_ok_def)
  from k CacheDelete have "op_key (ShardDelete key) \<noteq> Some []" by simp
  from shard_ok_apply_op[OF sh this] cache_ok_update[OF ok i(2)] show ?thesis
    by (simp add: CacheDelete Cache_Delete_def i(1))
next
  case CacheClear
  have "shard_inv (CacheShard_Clear sh) \<and> within_budget (CacheShard_Clear sh)
       \<and> maxSize (CacheShard_Clear sh) = b"
    if "shard_inv sh \<and> within_budget sh \<and> maxSize sh = b" for sh
    using shard_ok_apply_op[OF that, of ShardClear] by simp
  with ok show ?thesis by (auto simp: CacheClear Cache_Clear_def cache_ok_def)
qed

lemma cache_ok_fold:
  "cache_ok b c \<Longrightarrow> \<forall>op\<in>set ops. cache_op_key op \<noteq> Some [] \<Longrightarrow>
   cache_ok b (fold apply_cache_op ops c)"
  by (induction ops arbitrary: c) (simp_all add: cache_ok_apply)

lemma apply_cache_op_fields:
  "cache_maxSize (apply_cache_op op c) = cache_maxSize c"
  "shardCount (apply_cache_op op c) = shardCount c"
  by (cases op; simp add: Cache_Set_def Cache_Get_def Cache_Delete_def Cache_Clear_def
        split: sum.splits)+

lemma fold_cache_fields:
  "cache_maxSize (fold apply_cache_op ops c) = cache_maxSize c
   \<and> shardCount (fold apply_cache_op ops c) = shardCount c"
  by (induction ops arbitrary: c) (simp_all add: apply_cache_op_fields)

lemma cache_ok_total:
  assumes "cache_ok b c" "0 < b"
  shows "sum_list (map currentSize (shards c)) \<le> shardCount c * b"
proof -
  from assms have each: "\<forall>sh\<in>set (shards c). currentSize sh \<le> b"
    by (auto simp: cache_ok_def within_budget_def)
  then have "sum_list (map currentSize (shards c)) \<le> sum_list (map (\<lambda>sh. b) (shards c))"
    by (intro sum_list_mono) simp
  also have "\<dots> = int (length (shards c)) * b" by (rule sum_list_const_map)
  finally show ?thesis using assms(1) by (simp add: cache_ok_def)
qed

lemma within_budget_New: "within_budget (NewCacheShard m p c cs)"
  by (simp add: within_budget_def NewCacheShard_def)

lemma NewCache_ok:
  assumes c0: "NewCache opts numCPU = Some c0" and g: "0 < cache_maxSize c0"
  shows "\<exists>b. 0 < b \<and> cache_ok b c0 \<and> totalShardMaxSize c0 = shardCount c0 * b
           \<and> (shardCount c0 \<le> cache_maxSize c0 \<longrightarrow> shardCount c0 * b \<le> cache_maxSize c0)"
proof -
  from getOptimalShardCount_next_pow2[of numCPU] obtain k where
    k: "getOptimalShardCount numCPU = Some (2 ^ k)" "(4::int) \<le> 2 ^ k" by blast
  define n :: int where "n = 2 ^ k"
  have n: "getOptimalShardCount numCPU = Some n" "4 \<le> n" using k by (simp_all add: n_def)
  from NewCache_shape[OF n(1), of opts] c0 obtain g' p cmp cs where
    c: "c0 = \<lparr>cache_maxSize = g', cache_evictionPolicy = p,
                 shards = map (\<lambda>i. NewCacheShard
                                (if go_quot g' n = 0 \<and> g' > 0 then 1 else go_quot g' n) p cmp cs)
                              [0..<nat n],
                 shardCount = n\<rparr>" by auto
  define b where "b = (if go_quot g' n = 0 \<and> g' > 0 then 1 else go_quot g' n)"
  have g': "0 < g'" using g by (simp add: c)
  have q: "go_quot g' n = g' div n" using g' n(2) by (simp add: go_quot_def)
  have q0: "0 \<le> g' div n" using g' n(2) by (simp add: pos_imp_zdiv_nonneg_iff)
  have b0: "0 < b" using q q0 g' by (auto simp: b_def)
  have ok: "cache_ok b c0"
    using n(2) unfolding c b_def[symmetric]
    by (simp add: cache_ok_def shard_inv_New within_budget_New maxSize_NewCacheShard)
  have tot: "totalShardMaxSize c0 = shardCount c0 * b"
    using n(2) unfolding c b_def[symmetric]
    by (simp add: totalShardMaxSize_def o_def maxSize_NewCacheShard sum_list_const_map)
  have le: "shardCount c0 * b \<le> cache_maxSize c0" if "shardCount c0 \<le> cache_maxSize c0"
  proof -
    from that have ng: "n \<le> g'" by (simp add: c)
    then have "0 < g' div n" using n(2) by (simp add: pos_imp_zdiv_pos_iff)
    then have "1 \<le> g' div n" by simp
    then have "b = g' div n" using q by (simp add: b_def)
    moreover have "n * (g' div n) = g' - g' mod n" by (simp add: minus_mod_eq_mult_div)
    moreover have "0 \<le> g' mod n" using n(2) by simp
    ultimately show ?thesis by (simp add: c)
  qed
  from b0 ok tot le show ?thesis by blast
qed

lemma NewCache_returns: "NewCache opts numCPU = Some (the (NewCache opts numCPU))"
proof -
  from getOptimalShardCount_next_pow2[of numCPU] obtain k where
    "getOptimalShardCount numCPU = Some (2 ^ k)" by blast
  from NewCache_shape[OF this, of opts] show ?thesis by auto
qed

text \<open>
  C2, as amended. On a shard created with a budget \<open>m > 0\<close>, after every finite sequence
  of \<open>Set\<close>, \<open>Get\<close>, \<open>Delete\<close> and \<open>Clear\<close> with non-empty keys (in particular after
  every \<open>Set\<close>) the budget is still \<open>m\<close> and \<open>currentSize\<close> is at most the budget.
  On a cache built by \<open>NewCache\<close> with \<open>maxSize > 0\<close>, after every finite sequence of
  such operations every shard is within its own positive budget, so the \<open>CurrentSize\<close> of
  \<open>Stats\<close> is at most the sum of the budgets of the shards; it is at most the
  \<open>MaxSize\<close> of \<open>Stats\<close> when \<open>maxSize\<close> is at least the number of shards.
\<close>

theorem memory_bound:
  "(0 < m \<and> (\<forall>op\<in>set ops. op_key op \<noteq> Some []) \<longrightarrow>
      maxSize (run ops (NewCacheShard m p c cs)) = m
      \<and> currentSize (run ops (NewCacheShard m p c cs))
          \<le> maxSize (run ops (NewCacheShard m p c cs)))
   \<and> (NewCache opts numCPU = Some c0 \<and> 0 < cache_maxSize c0
        \<and> (\<forall>op\<in>set cops. cache_op_key op \<noteq> Some []) \<longrightarrow>
      (\<forall>sh\<in>set (shards (run_cache cops c0)). 0 < maxSize sh \<and> currentSize sh \<le> maxSize sh)
      \<and> CurrentSize (Cache_Stats (run_cache cops c0)) \<le> totalShardMaxSize c0
      \<and> (shardCount c0 \<le> cache_maxSize c0 \<longrightarrow>
           CurrentSize (Cache_Stats (run_cache cops c0))
             \<le> MaxSize (Cache_Stats (run_cache cops c0))))"
proof (intro conjI impI)
  assume "0 < m \<and> (\<forall>op\<in>set ops. op_key op \<noteq> Some [])"
  then have a: "0 < m" "\<forall>op\<in>set ops. op_key op \<noteq> Some []" by simp_all
  show "maxSize (run ops (NewCacheShard m p c cs)) = m"
    by (simp add: run_def fold_maxSize maxSize_NewCacheShard)
  show "currentSize (run ops (NewCacheShard m p c cs))
          \<le> maxSize (run ops (NewCacheShard m p c cs))"
    using shard_within_budget[OF a] by (simp add: run_def fold_maxSize maxSize_NewCacheShard)
next
  assume h: "NewCache opts numCPU = Some c0 \<and> 0 < cache_maxSize c0
        \<and> (\<forall>op\<in>set cops. cache_op_key op \<noteq> Some [])"
  then have c0: "NewCache opts numCPU = Some c0" and g: "0 < cache_maxSize c0"
    and k: "\<forall>op\<in>set cops. cache_op_key op \<noteq> Some []" by simp_all
  from NewCache_ok[OF c0 g] obtain b where
    b: "0 < b" "cache_ok b c0" "totalShardMaxSize c0 = shardCount c0 * b"
      "shardCount c0 \<le> cache_maxSize c0 \<longrightarrow> shardCount c0 * b \<le> cache_maxSize c0" by blast
  define c1 where "c1 = run_cache cops c0"
  have ok: "cache_ok b c1" unfolding c1_def run_cache_def by (rule cache_ok_fold[OF b(2) k])
  have f: "cache_maxSize c1 = cache_maxSize c0" "shardCount c1 = shardCount c0"
    unfolding c1_def run_cache_def using fold_cache_fields[of cops c0] by simp_all
  from cache_ok_total[OF ok b(1)]
  have tot: "CurrentSize (Cache_Stats c1) \<le> shardCount c0 * b"
    by (simp add: Cache_Stats_def f)
  show "\<forall>sh\<in>set (shards (run_cache cops c0)). 0 < maxSize sh \<and> currentSize sh \<le> maxSize sh"
    using ok b(1) unfolding c1_def[symmetric] by (auto simp: cache_ok_def within_budget_def)
  show "CurrentSize (Cache_Stats (run_cache cops c0)) \<le> totalShardMaxSize c0"
    using tot unfolding c1_def[symmetric] by (simp add: b(3))
  assume "shardCount c0 \<le> cache_maxSize c0"
  with b(4) tot show "CurrentSize (Cache_Stats (run_cache cops c0))
             \<le> MaxSize (Cache_Stats (run_cache cops c0))"
    unfolding c1_def[symmetric] by (simp add: Cache_Stats_def f)
qed

theorem memory_bound_witness:
  "currentSize (run [ShardSet 1 ''a'' [1, 2] 0, ShardSet 2 ''b'' [3, 4] 0, ShardGet 3 ''b'',
                       ShardSet 4 ''c'' [5, 6, 7, 8] 0, ShardSet 5 ''d'' [9] 0]
                      (NewCacheShard 3 ''FIFO'' None 1024)) = 1
   \<and> maxSize (run [ShardSet 1 ''a'' [1, 2] 0, ShardSet 2 ''b'' [3, 4] 0, ShardGet 3 ''b'',
                   ShardSet 4 ''c'' [5, 6, 7, 8] 0, ShardSet 5 ''d'' [9] 0]
                  (NewCacheShard 3 ''FIFO'' None 1024)) = 3
   \<and> CurrentSize (Cache_Stats (run_cache [CacheSet 1 ''a'' [1, 2, 3] 0, CacheSet 2 ''e'' [4, 5] 0,
                                         CacheSet 3 ''b'' [6] 0, CacheGet 4 ''b'']
                                 (the (NewCache [WithMaxSize 16] 1)))) = 3
   \<and> CurrentSize (Cache_Stats (run_cache [CacheSet 1 ''a'' [1, 2, 3] 0, CacheSet 2 ''e'' [4, 5] 0,
                                         CacheSet 3 ''b'' [6] 0, CacheGet 4 ''b'']
                                 (the (NewCache [WithMaxSize 16] 1))))
       \<le> MaxSize (Cache_Stats (run_cache [CacheSet 1 ''a'' [1, 2, 3] 0, CacheSet 2 ''e'' [4, 5] 0,
                                         CacheSet 3 ''b'' [6] 0, CacheGet 4 ''b'']
                                 (the (NewCache [WithMaxSize 16] 1))))"
proof -
  have m: "(0::int) < 3" by simp
  have ops: "\<forall>op\<in>set [ShardSet 1 ''a'' [1, 2] 0, ShardSet 2 ''b'' [3, 4] 0, ShardGet 3 ''b'',
                   ShardSet 4 ''c'' [5, 6, 7, 8] 0, ShardSet 5 ''d'' [9] 0].
         op_key op \<noteq> Some []"
    by simp
  have v: "currentSize (run [ShardSet 1 ''a'' [1, 2] 0, ShardSet 2 ''b'' [3, 4] 0,
                       ShardGet 3 ''b'', ShardSet 4 ''c'' [5, 6, 7, 8] 0, ShardSet 5 ''d'' [9] 0]
                      (NewCacheShard 3 ''FIFO'' None 1024)) = 1"
    by code_simp
  have c0: "NewCache [WithMaxSize 16] 1 = Some (the (NewCache [WithMaxSize 16] 1))"
    by (rule NewCache_returns)
  have g: "0 < cache_maxSize (the (NewCache [WithMaxSize 16] 1))"
    and sc: "shardCount (the (NewCache [WithMaxSize 16] 1))
              \<le> cache_maxSize (the (NewCache [WithMaxSize 16] 1))"
    by code_simp+
  have cops: "\<forall>op\<in>set [CacheSet 1 ''a'' [1, 2, 3] 0, CacheSet 2 ''e'' [4, 5] 0,
                        CacheSet 3 ''b'' [6] 0, CacheGet 4 ''b'']. cache_op_key op \<noteq> Some []"
    by simp
  have w: "CurrentSize (Cache_Stats (run_cache [CacheSet 1 ''a'' [1, 2, 3] 0,
                CacheSet 2 ''e'' [4, 5] 0, CacheSet 3 ''b'' [6] 0, CacheGet 4 ''b'']
                                 (the (NewCache [WithMaxSize 16] 1)))) = 3"
    by code_simp
  note M = memory_bound[of 3 "[ShardSet 1 ''a'' [1, 2] 0, ShardSet 2 ''b'' [3, 4] 0,
                   ShardGet 3 ''b'', ShardSet 4 ''c'' [5, 6, 7, 8] 0, ShardSet 5 ''d'' [9] 0]"
                  "''FIFO''" None 1024
                  "[WithMaxSize 16]" 1 "the (NewCache [WithMaxSize 16] 1)"
                  "[CacheSet 1 ''a'' [1, 2, 3] 0, CacheSet 2 ''e'' [4, 5] 0,
                    CacheSet 3 ''b'' [6] 0, CacheGet 4 ''b'']"]
  have s1: "maxSize (run [ShardSet 1 ''a'' [1, 2] 0, ShardSet 2 ''b'' [3, 4] 0, ShardGet 3 ''b'',
                   ShardSet 4 ''c'' [5, 6, 7, 8] 0, ShardSet 5 ''d'' [9] 0]
                  (NewCacheShard 3 ''FIFO'' None 1024)) = 3"
    by (rule conjunct1[OF mp[OF conjunct1[OF M] conjI[OF m ops]]])
  have s2: "shardCount (the (NewCache [WithMaxSize 16] 1))
              \<le> cache_maxSize (the (NewCache [WithMaxSize 16] 1)) \<longrightarrow>
     CurrentSize (Cache_Stats (run_cache [CacheSet 1 ''a'' [1, 2, 3] 0, CacheSet 2 ''e'' [4, 5] 0,
                                         CacheSet 3 ''b'' [6] 0, CacheGet 4 ''b'']
                                 (the (NewCache [WithMaxSize 16] 1))))
       \<le> MaxSize (Cache_Stats (run_cache [CacheSet 1 ''a'' [1, 2, 3] 0, CacheSet 2 ''e'' [4, 5] 0,
                                         CacheSet 3 ''b'' [6] 0, CacheGet 4 ''b'']
                                 (the (NewCache [WithMaxSize 16] 1))))"
    by (rule conjunct2[OF conjunct2[OF mp[OF conjunct2[OF M] conjI[OF c0 conjI[OF g cops]]]]])
  from s2 sc have s3: "CurrentSize (Cache_Stats (run_cache [CacheSet 1 ''a'' [1, 2, 3] 0,
                CacheSet 2 ''e'' [4, 5] 0, CacheSet 3 ''b'' [6] 0, CacheGet 4 ''b'']
                                 (the (NewCache [WithMaxSize 16] 1))))
       \<le> MaxSize (Cache_Stats (run_cache [CacheSet 1 ''a'' [1, 2, 3] 0, CacheSet 2 ''e'' [4, 5] 0,
                                         CacheSet 3 ''b'' [6] 0, CacheGet 4 ''b'']
                                 (the (NewCache [WithMaxSize 16] 1))))"
    by (rule mp)
  show ?thesis by (intro conjI v s1 w s3)
qed


text \<open>
  C2, as stated for a cache, fails: with \<open>maxSize = 3\<close> on one CPU there are four shards
  of budget 1; the keys \<open>a\<close>, \<open>b\<close>, \<open>c\<close>, \<open>d\<close> go to four different shards, and
  after storing one byte under each the cache holds 4 bytes in 4 entries with
  \<open>MaxSize = 3\<close>.
\<close>

theorem memory_bound_counterexample:
  "MaxSize (Cache_Stats (run_cache [CacheSet 1 ''a'' [1] 0, CacheSet 2 ''b'' [2] 0,
                                    CacheSet 3 ''c'' [3] 0, CacheSet 4 ''d'' [4] 0]
                           (the (NewCache [WithMaxSize 3] 1)))) = 3
   \<and> CurrentSize (Cache_Stats (run_cache [CacheSet 1 ''a'' [1] 0, CacheSet 2 ''b'' [2] 0,
                                    CacheSet 3 ''c'' [3] 0, CacheSet 4 ''d'' [4] 0]
                           (the (NewCache [WithMaxSize 3] 1)))) = 4
   \<and> CurrentCount (Cache_Stats (run_cache [CacheSet 1 ''a'' [1] 0, CacheSet 2 ''b'' [2] 0,
                                    CacheSet 3 ''c'' [3] 0, CacheSet 4 ''d'' [4] 0]
                           (the (NewCache [WithMaxSize 3] 1)))) = 4"
  by code_simp

section \<open>Eviction order under LFU\<close>








subsection \<open>The least recently used key of the least frequency goes first\<close>










section \<open>Expiry\<close>

text \<open>An entry stored with a positive time to live keeps its expiry time until the key
  is stored again; a \<open>Get\<close> after that time fails with \<open>ErrKeyNotFound\<close> and counts
  a miss, and neither it nor the \<open>Delete\<close> it starts changes the counter of evictions.\<close>

lemma expires_at_Set_same:
  assumes "0 < ttl"
  shows "expires_at k (now + ttl) (snd (CacheShard_Set now k v ttl s))"
proof -
  have st: "\<exists>item. map_of (data (storeItem now k v ttl s)) k = Some item
              \<and> ExpireAt item = Some (now + ttl)"
    using assms
    by (cases "map_of (data s) k") (simp_all add: storeItem_def Let_def AList.update_conv')
  have "ExpireAt item = Some (now + ttl)"
    if "map_of (data (snd (CacheShard_Set now k v ttl s))) k = Some item" for item
  proof -
    from that have "map_of (data (evictIfNeeded 0 (storeItem now k v ttl s))) k = Some item"
      by (simp add: CacheShard_Set_def)
    then have "map_of (data (storeItem now k v ttl s)) k = Some item" by (rule evictIfNeeded_data)
    with st show ?thesis by auto
  qed
  then show ?thesis unfolding expires_at_def by blast
qed

lemma expires_at_apply_op:
  assumes "expires_at k e s" "keeps_entry k op"
  shows "expires_at k e (apply_op op s)"
proof (cases op)
  case (ShardSet now key val ttl)
  with assms(2) have ne: "key \<noteq> k" by simp
  have "map_of (data s) k = Some item"
    if "map_of (data (snd (CacheShard_Set now key val ttl s))) k = Some item" for item
  proof -
    from that have "map_of (data (evictIfNeeded 0 (storeItem now key val ttl s))) k = Some item"
      by (simp add: CacheShard_Set_def)
    then have "map_of (data (storeItem now key val ttl s)) k = Some item"
      by (rule evictIfNeeded_data)
    then show ?thesis using ne by (simp add: storeItem_other)
  qed
  with assms(1) show ?thesis unfolding expires_at_def ShardSet by auto
next
  case (ShardGet now key)
  show ?thesis
  proof (cases "map_of (data s) key")
    case None
    with assms(1) show ?thesis by (simp add: expires_at_def ShardGet Get_data)
  next
    case (Some it)
    with assms(1) show ?thesis
      by (cases "key = k") (auto simp: expires_at_def ShardGet Get_data AList.update_conv')
  qed
next
  case (ShardDelete key)
  with assms(1) show ?thesis
    by (auto simp: expires_at_def CacheShard_Delete_def AList.delete_conv' split: option.splits
          if_splits)
next
  case ShardClear
  then show ?thesis by (simp add: expires_at_def CacheShard_Clear_def)
qed

lemma expires_at_fold:
  "expires_at k e s \<Longrightarrow> \<forall>op\<in>set ops. keeps_entry k op \<Longrightarrow> expires_at k e (fold apply_op ops s)"
  by (induction ops arbitrary: s) (simp_all add: expires_at_apply_op)

lemma Get_expired:
  assumes "expires_at k e s" "e < now"
  shows "fst (CacheShard_Get now k s) = Inl ErrKeyNotFound
       \<and> stats (snd (snd (CacheShard_Get now k s)))
           = (stats s)\<lparr>Misses := Misses (stats s) + 1\<rparr>"
proof (cases "map_of (data s) k")
  case None
  then show ?thesis by (simp add: CacheShard_Get_def)
next
  case (Some item)
  with assms have "ExpireAt item = Some e" by (simp add: expires_at_def)
  with Some assms(2) show ?thesis by (simp add: CacheShard_Get_def)
qed

lemma Delete_stats: "stats (CacheShard_Delete key s) = stats s"
  by (simp add: CacheShard_Delete_def split: option.splits)

lemma get_after_ttl:
  assumes "0 < ttl" "\<forall>op\<in>set ops. keeps_entry k op" "now + ttl < now'"
  shows "fst (CacheShard_Get now' k (run ops (snd (CacheShard_Set now k v ttl s))))
           = Inl ErrKeyNotFound
     \<and> Misses (stats (snd (snd (CacheShard_Get now' k
           (run ops (snd (CacheShard_Set now k v ttl s)))))))
         = Misses (stats (run ops (snd (CacheShard_Set now k v ttl s)))) + 1
     \<and> Evictions (stats (CacheShard_Delete k (snd (snd (CacheShard_Get now' k
           (run ops (snd (CacheShard_Set now k v ttl s))))))))
         = Evictions (stats (run ops (snd (CacheShard_Set now k v ttl s))))"
proof -
  have "expires_at k (now + ttl) (run ops (snd (CacheShard_Set now k v ttl s)))"
    unfolding run_def by (rule expires_at_fold[OF expires_at_Set_same[OF assms(1)] assms(2)])
  from Get_expired[OF this assms(3)] show ?thesis by (simp add: Delete_stats)
qed
section \<open>Behaviour at concrete inputs\<close>

text \<open>
  C4. \<open>Set\<close> with the empty key does not fail: on a new shard it returns \<open>nil\<close> and
  stores the value, which \<open>Get\<close> with the empty key then returns; on a shard that does not
  hold the empty key, \<open>Get\<close> fails with \<open>ErrKeyNotFound\<close>. \<open>Cache.Set\<close> passes the key
  on unchecked. A stored empty key stalls eviction, because \<open>evictOne\<close> reads the key
  \<open>''''\<close> as "nothing to evict": a shard of budget 2 ends with 3 bytes in 3 entries.
\<close>

theorem set_empty_key_accepted:
  "fst (CacheShard_Set 0 '''' [1] 0 (NewCacheShard 1024 ''LRU'' (Some NoCompressor) 1048576)) = None
   \<and> fst (CacheShard_Get 1 ''''
          (snd (CacheShard_Set 0 '''' [1] 0 (NewCacheShard 1024 ''LRU'' (Some NoCompressor) 1048576))))
       = Inr [1]
   \<and> fst (CacheShard_Get 1 '''' (NewCacheShard 1024 ''LRU'' (Some NoCompressor) 1048576))
       = Inl ErrKeyNotFound
   \<and> map_option (fst \<circ> Cache_Set 0 '''' [1] 0) (NewCache [] 1) = Some None
   \<and> currentSize (run [ShardSet 1 '''' [1] 0, ShardSet 2 ''a'' [2] 0, ShardSet 3 ''b'' [3] 0]
                      (NewCacheShard 2 ''LRU'' None 1024)) = 3
   \<and> map fst (data (run [ShardSet 1 '''' [1] 0, ShardSet 2 ''a'' [2] 0, ShardSet 3 ''b'' [3] 0]
                         (NewCacheShard 2 ''LRU'' None 1024))) = ['''', ''a'', ''b'']"
  by code_simp

text \<open>
  C5. Under FIFO, \<open>Set\<close> on a key that is already stored moves the key to the tail of
  the queue: after \<open>a\<close>, \<open>b\<close> the queue is \<open>a, b\<close>; overwriting \<open>a\<close> makes it
  \<open>b, a\<close>, and the next eviction removes \<open>b\<close> and keeps \<open>a\<close>.
\<close>

theorem fifo_overwrite_moves_to_tail:
  "fifoQueue (evictionList (run [ShardSet 1 ''a'' [1] 0, ShardSet 2 ''b'' [2] 0]
                (NewCacheShard 3 ''FIFO'' None 1024))) = [''a'', ''b'']
   \<and> fifoQueue (evictionList (run [ShardSet 1 ''a'' [1] 0, ShardSet 2 ''b'' [2] 0,
                                 ShardSet 3 ''a'' [3] 0]
                (NewCacheShard 3 ''FIFO'' None 1024))) = [''b'', ''a'']
   \<and> map fst (data (run [ShardSet 1 ''a'' [1] 0, ShardSet 2 ''b'' [2] 0,
                         ShardSet 3 ''a'' [3] 0, ShardSet 4 ''c'' [4, 5] 0]
                (NewCacheShard 3 ''FIFO'' None 1024))) = [''a'', ''c'']"
  by code_simp

text \<open>
  C6. A \<open>Get\<close> after the time to live fails with \<open>ErrKeyNotFound\<close>, counts a miss and
  starts \<open>Delete\<close>; after that \<open>Delete\<close> has run the entry is gone and the counter of
  evictions is still 0, with one expiration observed.
\<close>

theorem expiry_not_counted_as_eviction:
  "fst (CacheShard_Get 101 ''k''
         (run [ShardSet 0 ''k'' [1] 100] (NewCacheShard 1024 ''LRU'' None 1024)))
     = Inl ErrKeyNotFound
   \<and> fst (snd (CacheShard_Get 101 ''k''
         (run [ShardSet 0 ''k'' [1] 100] (NewCacheShard 1024 ''LRU'' None 1024))))
     = Some ''k''
   \<and> Misses (stats (run [ShardSet 0 ''k'' [1] 100, ShardGet 101 ''k'', ShardDelete ''k'']
         (NewCacheShard 1024 ''LRU'' None 1024))) = 1
   \<and> Evictions (stats (run [ShardSet 0 ''k'' [1] 100, ShardGet 101 ''k'', ShardDelete ''k'']
         (NewCacheShard 1024 ''LRU'' None 1024))) = 0
   \<and> data (run [ShardSet 0 ''k'' [1] 100, ShardGet 101 ''k'', ShardDelete ''k'']
         (NewCacheShard 1024 ''LRU'' None 1024)) = []"
  by code_simp

end
